theory Spec2Isabelle
  imports Main "HOL-Library.Word"
begin

unbundle bit_operations_syntax

section \<open>Data model\<close>

text \<open>
  The codec of \<^verbatim>\<open>c_src/gorilla_nif.cpp\<close>. Bytes are \<open>8 word\<close>, the C++ types
  \<^verbatim>\<open>uint32_t\<close> and \<^verbatim>\<open>uint64_t\<close> are \<open>32 word\<close> and \<open>64 word\<close>. An
  \<^verbatim>\<open>int64_t\<close> is kept as the \<open>64 word\<close> of its two's complement (\<open>sint\<close> reads it,
  arithmetic wraps). A \<^verbatim>\<open>double\<close> is kept as its 64-bit IEEE-754 pattern: on the
  little-endian build \<^verbatim>\<open>float_to_bits\<close> and \<^verbatim>\<open>bits_to_float\<close> copy the pattern
  unchanged. The C++ \<^verbatim>\<open>int\<close> used for bit counts is \<open>int\<close>.
\<close>

type_synonym byte = "8 word"
type_synonym u32 = "32 word"
type_synonym u64 = "64 word"
type_synonym i64 = "64 word"
type_synonym double_bits = "64 word"

definition float_to_bits :: "double_bits \<Rightarrow> u64" where
  "float_to_bits v = v"

definition bits_to_float :: "u64 \<Rightarrow> double_bits" where
  "bits_to_float b = b"

section \<open>BitWriter\<close>

text \<open>The methods of the C++ class \<^verbatim>\<open>BitWriter\<close> carry the prefix \<open>bw_\<close>, those of
  \<^verbatim>\<open>BitReader\<close> the prefix \<open>br_\<close>.\<close>

record BitWriter =
  w_out :: "byte list"
  w_buf :: u64
  w_bits :: int

definition BitWriter_new :: BitWriter where
  "BitWriter_new = \<lparr>w_out = [], w_buf = 0, w_bits = 0\<rparr>"

text \<open>\<^verbatim>\<open>BitWriter::flush\<close>: while at least 8 bits are pending, move the topmost pending byte to the output.\<close>

function bw_flush :: "BitWriter \<Rightarrow> BitWriter" where
  "bw_flush w =
     (if w_bits w \<ge> 8 then
        let b = w_bits w - 8 in
        bw_flush (w\<lparr>w_bits := b,
                 w_out := w_out w @ [ucast (drop_bit (nat b) (w_buf w) AND 0xFF)]\<rparr>)
      else w)"
  by pat_completeness auto
termination
  by (relation "measure (\<lambda>w. nat (w_bits w))") auto

declare bw_flush.simps [simp del]

text \<open>\<^verbatim>\<open>BitWriter::write(value, nbits)\<close>: more than 32 bits are split into a high part and a low 32-bit part.\<close>

function bw_write :: "BitWriter \<Rightarrow> u64 \<Rightarrow> int \<Rightarrow> BitWriter" where
  "bw_write w v nbits =
     (if nbits \<le> 0 then w
      else if nbits > 32 then
        bw_write (bw_write w (drop_bit 32 v) (nbits - 32)) (v AND 0xFFFFFFFF) 32
      else
        let m = push_bit (nat nbits) 1 - 1 in
        bw_flush (w\<lparr>w_buf := push_bit (nat nbits) (w_buf w) OR (v AND m),
                 w_bits := w_bits w + nbits\<rparr>))"
  by pat_completeness auto
termination
  by (relation "measure (\<lambda>(w, v, n). nat n)") auto

declare bw_write.simps [simp del]

definition bw_write_signed :: "BitWriter \<Rightarrow> i64 \<Rightarrow> int \<Rightarrow> BitWriter" where
  "bw_write_signed w v nbits =
     (let m = (if nbits \<ge> 64 then - 1 else push_bit (nat nbits) 1 - 1)
      in bw_write w (v AND m) nbits)"

definition bw_total_bits :: "BitWriter \<Rightarrow> nat" where
  "bw_total_bits w = length (w_out w) * 8 + nat (w_bits w)"

text \<open>\<^verbatim>\<open>BitWriter::to_bytes\<close> (and \<^verbatim>\<open>to_bytes_padded\<close>, which has the same body): the committed bytes,
  then the pending bits left-aligned in one more byte.\<close>

definition bw_to_bytes :: "BitWriter \<Rightarrow> byte list" where
  "bw_to_bytes w =
     (if w_bits w > 0
      then w_out w @ [ucast (push_bit (nat (8 - w_bits w)) (w_buf w))]
      else w_out w)"

section \<open>CRC32\<close>

text \<open>\<^verbatim>\<open>do_init_crc32_table\<close> fills entry \<open>i\<close> of the table with eight steps of the
  reflected polynomial division; \<open>crc32_table i\<close> is that entry.\<close>

fun crc32_entry :: "nat \<Rightarrow> u32 \<Rightarrow> u32" where
  "crc32_entry 0 c = c"
| "crc32_entry (Suc j) c =
     crc32_entry j (if c AND 1 \<noteq> 0 then 0xEDB88320 XOR drop_bit 1 c else drop_bit 1 c)"

definition crc32_table :: "u32 \<Rightarrow> u32" where
  "crc32_table i = crc32_entry 8 i"

fun crc32_loop :: "u32 \<Rightarrow> byte list \<Rightarrow> u32" where
  "crc32_loop c [] = c"
| "crc32_loop c (d # ds) =
     crc32_loop (crc32_table ((c XOR ucast d) AND 0xFF) XOR drop_bit 8 c) ds"

definition crc32 :: "byte list \<Rightarrow> u32" where
  "crc32 data = crc32_loop 0xFFFFFFFF data XOR 0xFFFFFFFF"

section \<open>BitReader\<close>

text \<open>Every \<^verbatim>\<open>throw\<close> of the decoder is a constructor. \<open>OutOfBounds\<close> and
  \<open>UndefinedShift\<close> stand for behaviour C++ leaves undefined: a read behind the byte array
  and a shift by a negative amount.\<close>

datatype error =
    ReadPastEnd
  | OutOfBounds
  | UndefinedShift
  | DataTooSmall
  | InvalidMagic
  | UnsupportedVersion
  | InvalidHeaderSize
  | DataSmallerThanHeader
  | CompressedBeyondInput
  | PackedTooSmall

definition bindE :: "error + 'a \<Rightarrow> ('a \<Rightarrow> error + 'b) \<Rightarrow> error + 'b" where
  "bindE m f = (case m of Inl e \<Rightarrow> Inl e | Inr x \<Rightarrow> f x)"

record BitReader =
  r_data :: "byte list"
  r_total_bits :: nat
  r_pos :: nat

definition BitReader_new :: "byte list \<Rightarrow> nat \<Rightarrow> BitReader" where
  "BitReader_new data nbits = \<lparr>r_data = data, r_total_bits = nbits, r_pos = 0\<rparr>"

definition br_read_bit :: "BitReader \<Rightarrow> error + (u64 \<times> BitReader)" where
  "br_read_bit r =
     (if r_pos r \<ge> r_total_bits r then Inl ReadPastEnd
      else
        let byte_idx = r_pos r div 8;
            bit_idx = 7 - r_pos r mod 8
        in if byte_idx \<ge> length (r_data r) then Inl OutOfBounds
           else Inr (ucast (drop_bit bit_idx (r_data r ! byte_idx)) AND 1,
                     r\<lparr>r_pos := r_pos r + 1\<rparr>))"

fun br_read_loop :: "nat \<Rightarrow> u64 \<Rightarrow> BitReader \<Rightarrow> error + (u64 \<times> BitReader)" where
  "br_read_loop 0 result r = Inr (result, r)"
| "br_read_loop (Suc k) result r =
     bindE (br_read_bit r) (\<lambda>(b, r'). br_read_loop k (push_bit 1 result OR b) r')"

definition br_read :: "BitReader \<Rightarrow> int \<Rightarrow> error + (u64 \<times> BitReader)" where
  "br_read r nbits = br_read_loop (nat nbits) 0 r"

definition br_read_signed :: "BitReader \<Rightarrow> int \<Rightarrow> error + (i64 \<times> BitReader)" where
  "br_read_signed r nbits =
     bindE (br_read r nbits) (\<lambda>(raw, r').
       if nbits \<ge> 64 then Inr (raw, r')
       else if raw AND push_bit (nat (nbits - 1)) 1 \<noteq> 0
         then Inr (raw OR NOT (push_bit (nat nbits) 1 - 1), r')
         else Inr (raw, r'))"

section \<open>Delta-of-delta timestamp encoding\<close>

definition encode_first_delta :: "BitWriter \<Rightarrow> i64 \<Rightarrow> BitWriter" where
  "encode_first_delta w delta =
     (if delta = 0 then bw_write w 0 1
      else if - 63 \<le> sint delta \<and> sint delta \<le> 64
        then bw_write_signed (bw_write w 2 2) delta 7
      else if - 255 \<le> sint delta \<and> sint delta \<le> 256
        then bw_write_signed (bw_write w 6 3) delta 9
      else if - 2047 \<le> sint delta \<and> sint delta \<le> 2048
        then bw_write_signed (bw_write w 14 4) delta 12
      else bw_write_signed (bw_write w 15 4) delta 32)"

definition encode_delta_of_delta :: "BitWriter \<Rightarrow> i64 \<Rightarrow> BitWriter" where
  "encode_delta_of_delta w dod =
     (if dod = 0 then bw_write w 0 1
      else if - 63 \<le> sint dod \<and> sint dod \<le> 64
        then bw_write_signed (bw_write w 2 2) dod 7
      else if - 255 \<le> sint dod \<and> sint dod \<le> 256
        then bw_write_signed (bw_write w 6 3) dod 9
      else if - 2047 \<le> sint dod \<and> sint dod \<le> 2048
        then bw_write_signed (bw_write w 14 4) dod 12
      else bw_write_signed (bw_write w 15 4) dod 32)"

record TimestampEncodeResult =
  ts_writer :: BitWriter
  first_timestamp :: i64
  first_delta :: i64
  ts_count :: nat

text \<open>The loop of \<^verbatim>\<open>encode_timestamps\<close> from index 2 on: \<open>prev_ts\<close> is
  \<^verbatim>\<open>timestamps[i - 1]\<close>, the list holds \<^verbatim>\<open>timestamps[i]\<close> and what follows.\<close>

fun encode_timestamps_loop :: "BitWriter \<Rightarrow> i64 \<Rightarrow> i64 \<Rightarrow> i64 list \<Rightarrow> BitWriter" where
  "encode_timestamps_loop w prev_ts prev_delta [] = w"
| "encode_timestamps_loop w prev_ts prev_delta (t # ts) =
     (let current_delta = t - prev_ts;
          dod = current_delta - prev_delta
      in encode_timestamps_loop (encode_delta_of_delta w dod) t current_delta ts)"

definition encode_timestamps :: "i64 list \<Rightarrow> TimestampEncodeResult" where
  "encode_timestamps timestamps =
     (case timestamps of
        [] \<Rightarrow> \<lparr>ts_writer = BitWriter_new, first_timestamp = 0, first_delta = 0, ts_count = 0\<rparr>
      | [t0] \<Rightarrow> \<lparr>ts_writer = bw_write BitWriter_new t0 64, first_timestamp = t0,
                 first_delta = 0, ts_count = 1\<rparr>
      | t0 # t1 # rest \<Rightarrow>
          let w = bw_write BitWriter_new t0 64;
              fd = t1 - t0;
              w = encode_first_delta w fd
          in \<lparr>ts_writer = encode_timestamps_loop w t1 fd rest, first_timestamp = t0,
               first_delta = fd, ts_count = length timestamps\<rparr>)"

section \<open>XOR value compression\<close>

definition bitmask :: "int \<Rightarrow> u64" where
  "bitmask n = (if n \<ge> 64 then - 1 else push_bit (nat n) 1 - 1)"

text \<open>The portable branch of \<^verbatim>\<open>count_leading_zeros_64\<close> and
  \<^verbatim>\<open>count_trailing_zeros_64\<close>; the compiler builtins of the other branches return the
  same counts. \<open>clz_step bound k\<close> is one line
  \<^verbatim>\<open>if (v <= bound) { n += k; v <<= k; }\<close> and \<open>ctz_step m k\<close> one line
  \<^verbatim>\<open>if ((v & m) == 0) { n += k; v >>= k; }\<close> on the pair of \<^verbatim>\<open>n\<close> and \<^verbatim>\<open>v\<close>.\<close>

definition clz_step :: "u64 \<Rightarrow> nat \<Rightarrow> int \<times> u64 \<Rightarrow> int \<times> u64" where
  "clz_step bound k nv =
     (case nv of (n, v) \<Rightarrow> if v \<le> bound then (n + int k, push_bit k v) else (n, v))"

definition ctz_step :: "u64 \<Rightarrow> nat \<Rightarrow> int \<times> u64 \<Rightarrow> int \<times> u64" where
  "ctz_step m k nv =
     (case nv of (n, v) \<Rightarrow> if v AND m = 0 then (n + int k, drop_bit k v) else (n, v))"

definition count_leading_zeros_64 :: "u64 \<Rightarrow> int" where
  "count_leading_zeros_64 v =
     (if v = 0 then 64
      else
        let nv = (0, v);
            nv = clz_step 0x00000000FFFFFFFF 32 nv;
            nv = clz_step 0x0000FFFFFFFFFFFF 16 nv;
            nv = clz_step 0x00FFFFFFFFFFFFFF 8 nv;
            nv = clz_step 0x0FFFFFFFFFFFFFFF 4 nv;
            nv = clz_step 0x3FFFFFFFFFFFFFFF 2 nv
        in if snd nv \<le> 0x7FFFFFFFFFFFFFFF then fst nv + 1 else fst nv)"

definition count_trailing_zeros_64 :: "u64 \<Rightarrow> int" where
  "count_trailing_zeros_64 v =
     (if v = 0 then 64
      else
        let nv = (0, v);
            nv = ctz_step 0x00000000FFFFFFFF 32 nv;
            nv = ctz_step 0x000000000000FFFF 16 nv;
            nv = ctz_step 0x00000000000000FF 8 nv;
            nv = ctz_step 0x000000000000000F 4 nv;
            nv = ctz_step 0x0000000000000003 2 nv
        in if snd nv AND 0x0000000000000001 = 0 then fst nv + 1 else fst nv)"

record ValueEncodeResult =
  val_writer :: BitWriter
  first_value :: double_bits
  val_count :: nat

text \<open>The state of the loop of \<^verbatim>\<open>encode_values\<close>: the writer, \<^verbatim>\<open>prev_bits\<close>,
  \<^verbatim>\<open>prev_leading\<close> and \<^verbatim>\<open>prev_trailing\<close>. \<open>encode_value_step\<close> is one pass
  through the loop body.\<close>

type_synonym value_enc_state = "BitWriter \<times> u64 \<times> int \<times> int"

definition encode_value_step :: "value_enc_state \<Rightarrow> double_bits \<Rightarrow> value_enc_state" where
  "encode_value_step st val =
     (case st of (w, prev_bits, prev_leading, prev_trailing) \<Rightarrow>
        let curr_bits = float_to_bits val;
            xor_val = curr_bits XOR prev_bits
        in if xor_val = 0 then (bw_write w 0 1, curr_bits, prev_leading, prev_trailing)
           else
             let leading = count_leading_zeros_64 xor_val;
                 trailing = count_trailing_zeros_64 xor_val;
                 meaningful = 64 - leading - trailing
             in if leading \<ge> prev_leading \<and> trailing \<ge> prev_trailing \<and>
                   64 - prev_leading - prev_trailing > 0
                then
                  let prev_meaningful = 64 - prev_leading - prev_trailing;
                      meaningful_value =
                        drop_bit (nat prev_trailing) xor_val AND bitmask prev_meaningful;
                      w = bw_write w 2 2;
                      w = bw_write w meaningful_value prev_meaningful
                  in (w, curr_bits, prev_leading, prev_trailing)
                else
                  let adj_leading = min leading 31;
                      adj_meaningful = max 1 (min 64 meaningful);
                      meaningful_value =
                        drop_bit (nat trailing) xor_val AND bitmask adj_meaningful;
                      w = bw_write w 3 2;
                      w = bw_write w (word_of_int adj_leading) 5;
                      w = bw_write w (word_of_int (adj_meaningful - 1)) 6;
                      w = bw_write w meaningful_value adj_meaningful
                  in (w, curr_bits, adj_leading, trailing))"

fun encode_values_loop :: "value_enc_state \<Rightarrow> double_bits list \<Rightarrow> value_enc_state" where
  "encode_values_loop st [] = st"
| "encode_values_loop st (v # vs) = encode_values_loop (encode_value_step st v) vs"

definition encode_values :: "double_bits list \<Rightarrow> ValueEncodeResult" where
  "encode_values vals =
     (case vals of
        [] \<Rightarrow> \<lparr>val_writer = BitWriter_new, first_value = 0, val_count = 0\<rparr>
      | v0 # rest \<Rightarrow>
          let first_bits = float_to_bits v0;
              w = bw_write BitWriter_new first_bits 64
          in if rest = [] then \<lparr>val_writer = w, first_value = v0, val_count = 1\<rparr>
             else \<lparr>val_writer = fst (encode_values_loop (w, first_bits, 0, 0) rest),
                    first_value = v0, val_count = length vals\<rparr>)"

section \<open>Headers\<close>

text \<open>\<^verbatim>\<open>build_inner_header\<close>: 256 bits. The \<^verbatim>\<open>int32_t first_delta\<close> is widened to
  \<^verbatim>\<open>int64_t\<close> by the call of \<^verbatim>\<open>write_signed\<close>.\<close>

definition build_inner_header ::
  "u32 \<Rightarrow> i64 \<Rightarrow> u64 \<Rightarrow> 32 word \<Rightarrow> u32 \<Rightarrow> u32 \<Rightarrow> byte list" where
  "build_inner_header count first_ts first_value_bits first_delta32 ts_bit_len val_bit_len =
     (let w = BitWriter_new;
          w = bw_write w (ucast count) 32;
          w = bw_write w first_ts 64;
          w = bw_write w first_value_bits 64;
          w = bw_write_signed w (scast first_delta32) 32;
          w = bw_write w (ucast ts_bit_len) 32;
          w = bw_write w (ucast val_bit_len) 32
      in bw_to_bytes w)"

definition GORILLA_MAGIC :: u64 where
  "GORILLA_MAGIC = 0x474F52494C4C41"

definition GORILLA_VERSION :: "16 word" where
  "GORILLA_VERSION = 1"

definition build_outer_header ::
  "u32 \<Rightarrow> u32 \<Rightarrow> u32 \<Rightarrow> i64 \<Rightarrow> 32 word \<Rightarrow> u64 \<Rightarrow> u32 \<Rightarrow> u32 \<Rightarrow> u32 \<Rightarrow> double_bits \<Rightarrow> i64
     \<Rightarrow> u32 \<Rightarrow> u32 \<Rightarrow> bool \<Rightarrow> byte list" where
  "build_outer_header count compressed_size checksum first_ts first_delta32 first_value_bits
       ts_bit_len val_bit_len total_bits32 compression_ratio creation_time flags
       scale_decimals v2 =
     (let header_size = (if v2 then 84 else 80 :: 16 word);
          original_size = count * 16;
          w = BitWriter_new;
          w = bw_write w GORILLA_MAGIC 64;
          w = bw_write w (ucast GORILLA_VERSION) 16;
          w = bw_write w (ucast header_size) 16;
          w = bw_write w (ucast count) 32;
          w = bw_write w (ucast compressed_size) 32;
          w = bw_write w (ucast original_size) 32;
          w = bw_write w (ucast checksum) 32;
          w = bw_write w first_ts 64;
          w = bw_write_signed w (scast first_delta32) 32;
          w = bw_write w first_value_bits 64;
          w = bw_write w (ucast ts_bit_len) 32;
          w = bw_write w (ucast val_bit_len) 32;
          w = bw_write w (ucast total_bits32) 32;
          w = bw_write w (float_to_bits compression_ratio) 64;
          w = bw_write w creation_time 64;
          w = bw_write w (ucast flags) 32;
          w = (if v2 then bw_write w (ucast scale_decimals) 32 else w)
      in bw_to_bytes w)"

section \<open>The environment: the clock and floating-point arithmetic\<close>

text \<open>
  The codec takes the creation time from \<^verbatim>\<open>time(nullptr)\<close> and does arithmetic on
  doubles in the preprocessing pass and for the compression ratio. Neither is modelled
  here: the operations are fields of an environment that the orchestrators take as an
  argument, each a function on 64-bit patterns, and every theorem holds for every
  environment.
\<close>

record env =
  clock :: i64
  fp_add :: "double_bits \<Rightarrow> double_bits \<Rightarrow> double_bits"
  fp_sub :: "double_bits \<Rightarrow> double_bits \<Rightarrow> double_bits"
  fp_mul :: "double_bits \<Rightarrow> double_bits \<Rightarrow> double_bits"
  fp_div :: "double_bits \<Rightarrow> double_bits \<Rightarrow> double_bits"
  fp_round :: "double_bits \<Rightarrow> double_bits"
  fp_pow :: "double_bits \<Rightarrow> double_bits \<Rightarrow> double_bits"
  fp_of_i64 :: "i64 \<Rightarrow> double_bits"
  fp_to_i64 :: "double_bits \<Rightarrow> i64"
  fp_of_u32 :: "u32 \<Rightarrow> double_bits"
  fp_format_10g :: "double_bits \<Rightarrow> string"

section \<open>VM preprocessing helpers\<close>

text \<open>The loop \<^verbatim>\<open>while (len > 0 && dot[len] == '0') len--\<close>; \<open>frac\<close> is the text
  after the dot, so \<^verbatim>\<open>dot[len]\<close> is \<open>frac ! (len - 1)\<close>.\<close>

fun trim_trailing_zeros :: "string \<Rightarrow> nat \<Rightarrow> nat" where
  "trim_trailing_zeros frac 0 = 0"
| "trim_trailing_zeros frac (Suc k) =
     (if frac ! k = CHR ''0'' then trim_trailing_zeros frac k else Suc k)"

definition detect_scale_step :: "env \<Rightarrow> int \<Rightarrow> double_bits \<Rightarrow> int" where
  "detect_scale_step env max_decimals v =
     (let buf = fp_format_10g env v
      in if CHR ''.'' \<in> set buf then
           let frac = tl (dropWhile (\<lambda>c. c \<noteq> CHR ''.'') buf);
               len = int (trim_trailing_zeros frac (length frac))
           in if len > max_decimals then len else max_decimals
         else max_decimals)"

definition detect_scale :: "env \<Rightarrow> double_bits list \<Rightarrow> int" where
  "detect_scale env vals = min (foldl (detect_scale_step env) 0 vals) 6"

fun pow10i_loop :: "nat \<Rightarrow> i64 \<Rightarrow> i64" where
  "pow10i_loop 0 r = r"
| "pow10i_loop (Suc k) r = pow10i_loop k (r * 10)"

definition pow10i :: "int \<Rightarrow> i64" where
  "pow10i n = pow10i_loop (nat n) 1"

definition scale_values :: "env \<Rightarrow> double_bits list \<Rightarrow> int \<Rightarrow> double_bits list" where
  "scale_values env vals n =
     (if n = 0 then vals
      else
        let scale = fp_of_i64 env (pow10i n)
        in map (\<lambda>v. fp_of_i64 env (fp_to_i64 env (fp_round env (fp_mul env v scale)))) vals)"

definition delta_encode_counter :: "env \<Rightarrow> double_bits list \<Rightarrow> double_bits list" where
  "delta_encode_counter env vals =
     (case vals of
        [] \<Rightarrow> []
      | v0 # rest \<Rightarrow> v0 # map (\<lambda>(cur, prev). fp_sub env cur prev) (zip rest vals))"

fun delta_decode_loop :: "env \<Rightarrow> double_bits \<Rightarrow> double_bits list \<Rightarrow> double_bits list" where
  "delta_decode_loop env back [] = []"
| "delta_decode_loop env back (v # vs) =
     (let s = fp_add env back v in s # delta_decode_loop env s vs)"

definition delta_decode_counter :: "env \<Rightarrow> double_bits list \<Rightarrow> double_bits list" where
  "delta_decode_counter env vals =
     (case vals of
        [] \<Rightarrow> []
      | v0 # rest \<Rightarrow> v0 # delta_decode_loop env v0 rest)"

section \<open>Encode\<close>

text \<open>
  The input is the sample list and the options map after the host's terms have been
  parsed: a sample is a timestamp and a double; each of the three option keys is absent
  (\<open>None\<close>) or present, and \<^verbatim>\<open>scale_decimals\<close> is present as an integer or as another
  term such as \<^verbatim>\<open>:auto\<close>.
\<close>

datatype scale_term = ScaleInt i64 | ScaleAuto

record encode_opts =
  opt_victoria_metrics :: "bool option"
  opt_is_counter :: "bool option"
  opt_scale_decimals :: "scale_term option"

text \<open>The block that copies one sub-stream into \<^verbatim>\<open>packed\<close>; the source has it twice,
  for the timestamp bytes and for the value bytes.\<close>

definition append_substream :: "BitWriter \<Rightarrow> byte list \<Rightarrow> nat \<Rightarrow> BitWriter" where
  "append_substream packed bytes bit_len =
     (if bit_len > 0 then
        let full_bytes = bit_len div 8;
            remaining = bit_len mod 8;
            packed = foldl (\<lambda>p b. bw_write p (ucast b) 8) packed (take full_bytes bytes)
        in if remaining > 0
           then bw_write packed (ucast (drop_bit (8 - remaining) (bytes ! full_bytes)))
                  (int remaining)
           else packed
      else packed)"

text \<open>
  \<^verbatim>\<open>nif_gorilla_encode\<close> in three definitions. \<open>vm_preprocess\<close> is the block
  ``VM preprocessing'': from \<^verbatim>\<open>vm_enabled\<close>, \<^verbatim>\<open>is_counter\<close>, \<^verbatim>\<open>scale_n\<close> and the
  values to \<^verbatim>\<open>flags\<close>, \<^verbatim>\<open>scale_decimals\<close> and the new values. \<open>pack_streams\<close> is
  the part from ``Build inner header'' to ``Pad to byte boundary'': the writer
  \<^verbatim>\<open>packed\<close> after the padding. \<open>nif_gorilla_encode\<close> is the rest.
\<close>

definition vm_preprocess ::
  "env \<Rightarrow> bool \<Rightarrow> bool \<Rightarrow> int \<Rightarrow> double_bits list \<Rightarrow> u32 \<times> u32 \<times> double_bits list" where
  "vm_preprocess env vm_enabled is_counter scale_n0 vals0 =
     (if vm_enabled then
        let flags = (1 :: u32);
            (flags, vals) =
              (if is_counter then (flags OR 2, delta_encode_counter env vals0)
               else (flags, vals0));
            scale_n = (if scale_n0 < 0 then detect_scale env vals else scale_n0)
        in (flags, word_of_int scale_n, scale_values env vals scale_n)
      else (0, 0, vals0))"

definition pack_streams :: "nat \<Rightarrow> TimestampEncodeResult \<Rightarrow> ValueEncodeResult \<Rightarrow> BitWriter" where
  "pack_streams n ts_result val_result =
     (let ts_bit_len = bw_total_bits (ts_writer ts_result);
          val_bit_len = bw_total_bits (val_writer val_result);
          first_value_bits = float_to_bits (first_value val_result);
          inner_header = build_inner_header (of_nat n) (first_timestamp ts_result)
                           first_value_bits (ucast (first_delta ts_result))
                           (of_nat ts_bit_len) (of_nat val_bit_len);
          ts_bytes = bw_to_bytes (ts_writer ts_result);
          val_bytes = bw_to_bytes (val_writer val_result);
          packed = BitWriter_new;
          packed = foldl (\<lambda>p b. bw_write p (ucast b) 8) packed inner_header;
          packed = append_substream packed ts_bytes ts_bit_len;
          packed = append_substream packed val_bytes val_bit_len;
          total_bits0 = bw_total_bits packed;
          pad_bits = (8 - total_bits0 mod 8) mod 8
      in if pad_bits > 0 then bw_write packed 0 (int pad_bits) else packed)"

definition nif_gorilla_encode :: "env \<Rightarrow> (i64 \<times> double_bits) list \<Rightarrow> encode_opts \<Rightarrow> byte list" where
  "nif_gorilla_encode env data opts =
     (if length data = 0 then []
      else
        let timestamps = map fst data;
            vals = map snd data;
            vm_enabled = (case opt_victoria_metrics opts of Some b \<Rightarrow> b | None \<Rightarrow> False);
            is_counter = (case opt_is_counter opts of Some b \<Rightarrow> b | None \<Rightarrow> False);
            scale_n = (case opt_scale_decimals opts of
                         Some (ScaleInt sval) \<Rightarrow> sint (ucast sval :: 32 word)
                       | _ \<Rightarrow> - 1);
            (flags, scale_decimals, vals) = vm_preprocess env vm_enabled is_counter scale_n vals;
            v2 = (vm_enabled \<or> (is_counter \<and> scale_decimals \<ge> 0));
            ts_result = encode_timestamps timestamps;
            ts_bit_len = bw_total_bits (ts_writer ts_result);
            val_result = encode_values vals;
            val_bit_len = bw_total_bits (val_writer val_result);
            first_value_bits = float_to_bits (first_value val_result);
            packed = pack_streams (length timestamps) ts_result val_result;
            total_bits1 = bw_total_bits packed;
            packed_data = bw_to_bytes packed;
            checksum = crc32 packed_data;
            creation_time = clock env;
            compressed_size = (of_nat (length packed_data) :: u32);
            count = (of_nat (length timestamps) :: u32);
            original_size = count * 16;
            compression_ratio =
              (if original_size > 0
               then fp_div env (fp_of_u32 env compressed_size) (fp_of_u32 env original_size)
               else 0);
            outer_header = build_outer_header count compressed_size checksum
                             (first_timestamp ts_result) (ucast (first_delta ts_result))
                             first_value_bits (of_nat ts_bit_len) (of_nat val_bit_len)
                             (of_nat total_bits1) compression_ratio creation_time flags
                             scale_decimals v2
        in outer_header @ packed_data)"

section \<open>Decode helpers\<close>

definition decode_first_delta :: "BitReader \<Rightarrow> error + (i64 \<times> BitReader)" where
  "decode_first_delta reader =
     bindE (br_read_bit reader) (\<lambda>(bit1, reader).
       if bit1 = 0 then Inr (0, reader) else
     bindE (br_read_bit reader) (\<lambda>(bit2, reader).
       if bit2 = 0 then br_read_signed reader 7 else
     bindE (br_read_bit reader) (\<lambda>(bit3, reader).
       if bit3 = 0 then br_read_signed reader 9 else
     bindE (br_read_bit reader) (\<lambda>(bit4, reader).
       if bit4 = 0 then br_read_signed reader 12 else
       br_read_signed reader 32))))"

definition decode_delta_of_delta :: "BitReader \<Rightarrow> error + (i64 \<times> BitReader)" where
  "decode_delta_of_delta reader =
     bindE (br_read_bit reader) (\<lambda>(bit1, reader).
       if bit1 = 0 then Inr (0, reader) else
     bindE (br_read_bit reader) (\<lambda>(bit2, reader).
       if bit2 = 0 then br_read_signed reader 7 else
     bindE (br_read_bit reader) (\<lambda>(bit3, reader).
       if bit3 = 0 then br_read_signed reader 9 else
     bindE (br_read_bit reader) (\<lambda>(bit4, reader).
       if bit4 = 0 then br_read_signed reader 12 else
       br_read_signed reader 32))))"

text \<open>The loop of \<^verbatim>\<open>decode_timestamps\<close> from index 2 on; the first argument counts the
  passes that are left.\<close>

fun decode_timestamps_loop ::
  "nat \<Rightarrow> BitReader \<Rightarrow> i64 \<Rightarrow> i64 list \<Rightarrow> error + i64 list" where
  "decode_timestamps_loop 0 reader prev_delta timestamps = Inr timestamps"
| "decode_timestamps_loop (Suc k) reader prev_delta timestamps =
     bindE (decode_delta_of_delta reader) (\<lambda>(dod, reader).
       let current_delta = prev_delta + dod;
           ts = last timestamps + current_delta
       in decode_timestamps_loop k reader current_delta (timestamps @ [ts]))"

definition decode_timestamps :: "BitReader \<Rightarrow> u32 \<Rightarrow> error + i64 list" where
  "decode_timestamps reader count =
     (if count = 0 then Inr []
      else
        bindE (br_read reader 64) (\<lambda>(first_ts, reader).
          if count = 1 then Inr [first_ts]
          else
            bindE (decode_first_delta reader) (\<lambda>(first_delta, reader).
              let second_ts = first_ts + first_delta
              in decode_timestamps_loop (unat count - 2) reader first_delta
                   [first_ts, second_ts])))"

text \<open>One pass through the loop body of \<^verbatim>\<open>decode_values\<close>: the state is the reader,
  \<^verbatim>\<open>prev_bits\<close>, \<^verbatim>\<open>prev_leading\<close> and \<^verbatim>\<open>prev_trailing\<close>; the result is the value
  pushed and the new state.\<close>

type_synonym value_dec_state = "BitReader \<times> u64 \<times> int \<times> int"

definition decode_value_step :: "value_dec_state \<Rightarrow> error + (double_bits \<times> value_dec_state)" where
  "decode_value_step st =
     (case st of (reader, prev_bits, prev_leading, prev_trailing) \<Rightarrow>
        bindE (br_read_bit reader) (\<lambda>(bit1, reader).
          if bit1 = 0
          then Inr (bits_to_float prev_bits, (reader, prev_bits, prev_leading, prev_trailing))
          else
            bindE (br_read_bit reader) (\<lambda>(bit2, reader).
              if bit2 = 0 then
                let meaningful_length = 64 - prev_leading - prev_trailing
                in bindE (br_read reader meaningful_length) (\<lambda>(meaningful_value, reader).
                     if prev_trailing < 0 then Inl UndefinedShift
                     else
                       let xor_val = push_bit (nat prev_trailing) meaningful_value;
                           new_bits = prev_bits XOR xor_val
                       in Inr (bits_to_float new_bits,
                               (reader, new_bits, prev_leading, prev_trailing)))
              else
                bindE (br_read reader 5) (\<lambda>(leading64, reader).
                bindE (br_read reader 6) (\<lambda>(len64, reader).
                  let leading = uint leading64;
                      meaningful_length = uint len64 + 1;
                      trailing = 64 - leading - meaningful_length
                  in bindE (br_read reader meaningful_length) (\<lambda>(meaningful_value, reader).
                       if trailing < 0 then Inl UndefinedShift
                       else
                         let xor_val = push_bit (nat trailing) meaningful_value;
                             new_bits = prev_bits XOR xor_val
                         in Inr (bits_to_float new_bits,
                                 (reader, new_bits, leading, trailing))))))))"

fun decode_values_loop ::
  "nat \<Rightarrow> value_dec_state \<Rightarrow> double_bits list \<Rightarrow> error + double_bits list" where
  "decode_values_loop 0 st vals = Inr vals"
| "decode_values_loop (Suc k) st vals =
     bindE (decode_value_step st) (\<lambda>(v, st'). decode_values_loop k st' (vals @ [v]))"

definition decode_values :: "BitReader \<Rightarrow> u32 \<Rightarrow> error + double_bits list" where
  "decode_values reader count =
     (if count = 0 then Inr []
      else
        bindE (br_read reader 64) (\<lambda>(first_bits, reader).
          if count = 1 then Inr [bits_to_float first_bits]
          else decode_values_loop (unat count - 1) (reader, first_bits, 0, 0)
                 [bits_to_float first_bits]))"

text \<open>The loops \<^verbatim>\<open>for (i = 0; i < n; i++) reader.read_bit()\<close> that move a fresh reader
  to the start of a sub-stream.\<close>

fun skip_bits :: "nat \<Rightarrow> BitReader \<Rightarrow> error + BitReader" where
  "skip_bits 0 reader = Inr reader"
| "skip_bits (Suc k) reader = bindE (br_read_bit reader) (\<lambda>(b, reader). skip_bits k reader)"

section \<open>Decode\<close>

text \<open>
  \<^verbatim>\<open>nif_gorilla_decode\<close> in three definitions: \<open>vm_postprocess\<close> is the block
  ``VM postprocessing'', \<open>decode_payload\<close> is the body from the test
  \<^verbatim>\<open>count == 0\<close> to the end, \<open>nif_gorilla_decode\<close> is the parse of the outer header
  in front of it. \<open>packed_data\<close> is the input from byte \<^verbatim>\<open>header_size\<close> on.
\<close>

definition vm_postprocess :: "env \<Rightarrow> u32 \<Rightarrow> u32 \<Rightarrow> double_bits list \<Rightarrow> double_bits list" where
  "vm_postprocess env flags scale_decimals vals0 =
     (let vm_enabled = (flags AND 1 \<noteq> 0);
          is_counter = (flags AND 2 \<noteq> 0)
      in if vm_enabled then
           let vals =
                 (if scale_decimals > 0 then
                    let scale = fp_pow env 0x4024000000000000 (fp_of_u32 env scale_decimals)
                    in map (\<lambda>v. fp_div env v scale) vals0
                  else vals0)
           in if is_counter then delta_decode_counter env vals else vals
         else vals0)"

definition decode_payload ::
  "env \<Rightarrow> byte list \<Rightarrow> nat \<Rightarrow> u32 \<Rightarrow> u32 \<Rightarrow> u32 \<Rightarrow> error + (i64 \<times> double_bits) list" where
  "decode_payload env packed_data packed_size count flags scale_decimals =
     (if count = 0 then Inr []
      else if packed_size < 32 then Inl PackedTooSmall
      else
        let inner = BitReader_new packed_data (packed_size * 8) in
        bindE (br_read inner 32) (\<lambda>(inner_count, inner).
        bindE (br_read inner 64) (\<lambda>(inner_first_ts, inner).
        bindE (br_read inner 64) (\<lambda>(inner_first_val, inner).
        bindE (br_read_signed inner 32) (\<lambda>(inner_first_delta, inner).
        bindE (br_read inner 32) (\<lambda>(ts_bit_len64, inner).
        bindE (br_read inner 32) (\<lambda>(val_bit_len64, inner).
          let ts_bit_len = (ucast ts_bit_len64 :: u32);
              data_start_bits = 256;
              ts_start = data_start_bits;
              val_start = ts_start + unat ts_bit_len;
              ts_reader = BitReader_new packed_data (packed_size * 8) in
          bindE (skip_bits data_start_bits ts_reader) (\<lambda>ts_reader.
          bindE (decode_timestamps ts_reader count) (\<lambda>timestamps.
            let val_reader = BitReader_new packed_data (packed_size * 8) in
            bindE (skip_bits val_start val_reader) (\<lambda>val_reader.
            bindE (decode_values val_reader count) (\<lambda>vals.
              Inr (zip timestamps (vm_postprocess env flags scale_decimals vals)))))))))))))"

definition nif_gorilla_decode :: "env \<Rightarrow> byte list \<Rightarrow> error + (i64 \<times> double_bits) list" where
  "nif_gorilla_decode env data =
     (if length data = 0 then Inr []
      else
        let len = length data in
        if len < 80 then Inl DataTooSmall
        else
          let hdr = BitReader_new data (len * 8) in
          bindE (br_read hdr 64) (\<lambda>(magic, hdr).
          if magic \<noteq> GORILLA_MAGIC then Inl InvalidMagic else
          bindE (br_read hdr 16) (\<lambda>(version, hdr).
          if version > ucast GORILLA_VERSION then Inl UnsupportedVersion else
          bindE (br_read hdr 16) (\<lambda>(header_size, hdr).
          if header_size \<noteq> 80 \<and> header_size \<noteq> 84 then Inl InvalidHeaderSize else
          if len < unat header_size then Inl DataSmallerThanHeader else
          bindE (br_read hdr 32) (\<lambda>(count64, hdr).
          bindE (br_read hdr 32) (\<lambda>(compressed_size64, hdr).
          bindE (br_read hdr 32) (\<lambda>(original_size, hdr).
          bindE (br_read hdr 32) (\<lambda>(expected_crc64, hdr).
          bindE (br_read hdr 64) (\<lambda>(first_ts, hdr).
          bindE (br_read_signed hdr 32) (\<lambda>(first_delta32, hdr).
          bindE (br_read hdr 64) (\<lambda>(first_value_bits, hdr).
          bindE (br_read hdr 32) (\<lambda>(ts_bit_len, hdr).
          bindE (br_read hdr 32) (\<lambda>(val_bit_len, hdr).
          bindE (br_read hdr 32) (\<lambda>(total_bits32, hdr).
          bindE (br_read hdr 64) (\<lambda>(compression_ratio_hdr, hdr).
          bindE (br_read hdr 64) (\<lambda>(creation_time, hdr).
          bindE (br_read hdr 32) (\<lambda>(flags64, hdr).
          bindE (if header_size = 84
                 then bindE (br_read hdr 32) (\<lambda>(s, hdr). Inr (ucast s :: u32, hdr))
                 else Inr (0, hdr)) (\<lambda>(scale_decimals, hdr).
            let count = (ucast count64 :: u32);
                compressed_size = (ucast compressed_size64 :: u32);
                expected_crc = (ucast expected_crc64 :: u32);
                flags = (ucast flags64 :: u32);
                packed_data = drop (unat header_size) data;
                packed_size = unat compressed_size
            in if unat header_size + packed_size > len then Inl CompressedBeyondInput
               else
                 let actual_crc = crc32 (take packed_size packed_data);
                     crc_mismatch = (actual_crc \<noteq> expected_crc)
                 in decode_payload env packed_data packed_size count flags
                      scale_decimals))))))))))))))))))"

section \<open>An environment for closed examples\<close>

text \<open>
  The closed examples below run with preprocessing off, where the only use of the
  environment is to fill the compression-ratio and creation-time fields of the outer
  header, which the decoder skips. \<open>example_env\<close> answers every request with zero.
\<close>

definition example_env :: env where
  "example_env =
     \<lparr>clock = 0, fp_add = (\<lambda>a b. 0), fp_sub = (\<lambda>a b. 0), fp_mul = (\<lambda>a b. 0),
      fp_div = (\<lambda>a b. 0), fp_round = (\<lambda>a. 0), fp_pow = (\<lambda>a b. 0),
      fp_of_i64 = (\<lambda>a. 0), fp_to_i64 = (\<lambda>a. 0), fp_of_u32 = (\<lambda>a. 0),
      fp_format_10g = (\<lambda>a. [])\<rparr>"

definition default_opts :: encode_opts where
  "default_opts =
     \<lparr>opt_victoria_metrics = None, opt_is_counter = None, opt_scale_decimals = None\<rparr>"

section \<open>Reachable writers\<close>

text \<open>The writers a program can hold: a fresh one, and whatever the public operations make of it.\<close>

inductive reachable :: "BitWriter \<Rightarrow> bool" where
  reach_new: "reachable BitWriter_new"
| reach_write: "reachable w \<Longrightarrow> reachable (bw_write w v n)"
| reach_write_signed: "reachable w \<Longrightarrow> reachable (bw_write_signed w v n)"
| reach_flush: "reachable w \<Longrightarrow> reachable (bw_flush w)"

section \<open>Streams as lists of bits\<close>

text \<open>
  The definitions from here on are not part of the program: they say what the program's
  streams mean, and the theorems relate the program to them. A stream is the list of its
  bits in the order in which they are written, \<open>True\<close> for 1. \<open>word_bits n v\<close> is the
  low \<open>n\<close> bits of \<open>v\<close>, most significant first.
\<close>

fun word_bits :: "nat \<Rightarrow> 'a::len word \<Rightarrow> bool list" where
  "word_bits 0 v = []"
| "word_bits (Suc n) v = bit v n # word_bits n v"

definition bytes_bits :: "byte list \<Rightarrow> bool list" where
  "bytes_bits bs = concat (map (word_bits 8) bs)"

text \<open>The bits a writer holds: the committed bytes, then the pending bits.\<close>

definition bw_bits :: "BitWriter \<Rightarrow> bool list" where
  "bw_bits w = bytes_bits (w_out w) @ word_bits (nat (w_bits w)) (w_buf w)"

definition bw_inv :: "BitWriter \<Rightarrow> bool" where
  "bw_inv w = (0 \<le> w_bits w \<and> w_bits w < 8)"

text \<open>The number that a run of bits spells, most significant bit first.\<close>

definition bl_word :: "bool list \<Rightarrow> u64" where
  "bl_word bs = foldl (\<lambda>acc b. push_bit 1 acc OR of_bool b) 0 bs"

text \<open>The field of \<open>n\<close> bits at bit offset \<open>k\<close> of a buffer, big-endian.\<close>

definition header_field :: "byte list \<Rightarrow> nat \<Rightarrow> nat \<Rightarrow> u64" where
  "header_field data k n = bl_word (take n (drop k (bytes_bits data)))"

text \<open>A buffer with the bytes from offset \<open>lo\<close> on overwritten by \<open>c\<close>.\<close>

definition patch_bytes :: "nat \<Rightarrow> byte list \<Rightarrow> byte list \<Rightarrow> byte list" where
  "patch_bytes lo c buf = take lo buf @ c @ drop (lo + length c) buf"

subsection \<open>The variable-length code of the specification\<close>

text \<open>
  The table of the timestamp codec, in the specification's words: the prefix bits and
  the payload of a first delta or a delta-of-delta \<open>d\<close>. The payload is the low 7, 9, 12
  or 32 bits of the two's complement of \<open>d\<close>.
\<close>

definition varlen_code :: "i64 \<Rightarrow> bool list" where
  "varlen_code d =
     (if d = 0 then [False]
      else if - 63 \<le> sint d \<and> sint d \<le> 64 then [True, False] @ word_bits 7 d
      else if - 255 \<le> sint d \<and> sint d \<le> 256 then [True, True, False] @ word_bits 9 d
      else if - 2047 \<le> sint d \<and> sint d \<le> 2048 then [True, True, True, False] @ word_bits 12 d
      else [True, True, True, True] @ word_bits 32 d)"

fun dod_codes :: "i64 \<Rightarrow> i64 \<Rightarrow> i64 list \<Rightarrow> bool list" where
  "dod_codes prev_ts prev_delta [] = []"
| "dod_codes prev_ts prev_delta (t # ts) =
     varlen_code ((t - prev_ts) - prev_delta) @ dod_codes t (t - prev_ts) ts"

text \<open>The timestamp sub-stream: the first timestamp in 64 bits, the first delta, the
  deltas of deltas.\<close>

definition ts_code :: "i64 list \<Rightarrow> bool list" where
  "ts_code ts =
     (case ts of
        [] \<Rightarrow> []
      | [t0] \<Rightarrow> word_bits 64 t0
      | t0 # t1 # rest \<Rightarrow> word_bits 64 t0 @ varlen_code (t1 - t0) @ dod_codes t1 (t1 - t0) rest)"

text \<open>
  What the decoder makes of the code of \<open>d\<close>: the payload sign-extended from its top
  bit. \<open>replay_timestamps\<close> is the decoder's recurrence run on these values, next to
  the encoder's recurrence on the true deltas.
\<close>

definition wire_delta :: "i64 \<Rightarrow> i64" where
  "wire_delta d =
     (if d = 0 then 0
      else if - 63 \<le> sint d \<and> sint d \<le> 64 then signed_take_bit 6 d
      else if - 255 \<le> sint d \<and> sint d \<le> 256 then signed_take_bit 8 d
      else if - 2047 \<le> sint d \<and> sint d \<le> 2048 then signed_take_bit 11 d
      else signed_take_bit 31 d)"

fun replay_loop :: "i64 \<Rightarrow> i64 \<Rightarrow> i64 \<Rightarrow> i64 \<Rightarrow> i64 list \<Rightarrow> i64 list" where
  "replay_loop prev_ts prev_delta out_ts out_delta [] = []"
| "replay_loop prev_ts prev_delta out_ts out_delta (t # ts) =
     (let cd = t - prev_ts;
          od = out_delta + wire_delta (cd - prev_delta);
          ot = out_ts + od
      in ot # replay_loop t cd ot od ts)"

definition replay_timestamps :: "i64 list \<Rightarrow> i64 list" where
  "replay_timestamps ts =
     (case ts of
        [] \<Rightarrow> []
      | [t0] \<Rightarrow> [t0]
      | t0 # t1 # rest \<Rightarrow>
          let fd = wire_delta (t1 - t0); s = t0 + fd
          in t0 # s # replay_loop t1 (t1 - t0) s fd rest)"

text \<open>
  The deltas that come back unchanged: those inside the 32-bit payload of the widest
  bucket, except 64, 256 and 2048, the upper ends of the three narrow buckets, whose
  payloads read back as \<open>-64\<close>, \<open>-256\<close> and \<open>-2048\<close>.
\<close>

definition delta_fits :: "i64 \<Rightarrow> bool" where
  "delta_fits d =
     (- (2 ^ 31) \<le> sint d \<and> sint d < 2 ^ 31 \<and> sint d \<noteq> 64 \<and> sint d \<noteq> 256 \<and> sint d \<noteq> 2048)"

fun dods_fit :: "i64 \<Rightarrow> i64 \<Rightarrow> i64 list \<Rightarrow> bool" where
  "dods_fit prev_ts prev_delta [] = True"
| "dods_fit prev_ts prev_delta (t # ts) =
     (delta_fits ((t - prev_ts) - prev_delta) \<and> dods_fit t (t - prev_ts) ts)"

definition timestamps_fit :: "i64 list \<Rightarrow> bool" where
  "timestamps_fit ts =
     (case ts of
        [] \<Rightarrow> True
      | [t0] \<Rightarrow> True
      | t0 # t1 # rest \<Rightarrow> delta_fits (t1 - t0) \<and> dods_fit t1 (t1 - t0) rest)"

subsection \<open>The value code with the window at its initial position\<close>

text \<open>One 0 bit for a value equal to its predecessor, else the bits 10 and the 64 bits
  of the XOR.\<close>

definition xor_code :: "u64 \<Rightarrow> u64 \<Rightarrow> bool list" where
  "xor_code prev v = (if v = prev then [False] else [True, False] @ word_bits 64 (v XOR prev))"

fun xor_codes :: "u64 \<Rightarrow> u64 list \<Rightarrow> bool list" where
  "xor_codes prev [] = []"
| "xor_codes prev (v # vs) = xor_code prev v @ xor_codes v vs"

definition val_code :: "u64 list \<Rightarrow> bool list" where
  "val_code vs = (case vs of [] \<Rightarrow> [] | v0 # rest \<Rightarrow> word_bits 64 v0 @ xor_codes v0 rest)"

subsection \<open>Sizes that the 32-bit header fields can hold\<close>

text \<open>The sample count, the length in bits of the timestamp sub-stream and the length in
  bytes of the packed payload (the 32-byte inner header and the two sub-streams, padded to
  a whole byte) are stored in 32-bit fields and read back from them.\<close>

definition sizes_fit :: "i64 list \<Rightarrow> u64 list \<Rightarrow> bool" where
  "sizes_fit ts vs =
     (length ts < 2 ^ 32 \<and> length (ts_code ts) < 2 ^ 32 \<and>
      256 + length (ts_code ts) + length (val_code vs) \<le> 8 * (2 ^ 32 - 1))"

subsection \<open>The headers, field by field\<close>

definition inner_header_bits ::
  "u32 \<Rightarrow> i64 \<Rightarrow> u64 \<Rightarrow> 32 word \<Rightarrow> u32 \<Rightarrow> u32 \<Rightarrow> bool list" where
  "inner_header_bits count first_ts first_value_bits first_delta32 ts_bit_len val_bit_len =
     word_bits 32 count @ word_bits 64 first_ts @ word_bits 64 first_value_bits @
     word_bits 32 first_delta32 @ word_bits 32 ts_bit_len @ word_bits 32 val_bit_len"

definition outer_header_bits ::
  "u32 \<Rightarrow> u32 \<Rightarrow> u32 \<Rightarrow> i64 \<Rightarrow> 32 word \<Rightarrow> u64 \<Rightarrow> u32 \<Rightarrow> u32 \<Rightarrow> u32 \<Rightarrow> double_bits \<Rightarrow> i64
     \<Rightarrow> u32 \<Rightarrow> u32 \<Rightarrow> bool \<Rightarrow> bool list" where
  "outer_header_bits count compressed_size checksum first_ts first_delta32 first_value_bits
       ts_bit_len val_bit_len total_bits32 compression_ratio creation_time flags
       scale_decimals v2 =
     word_bits 64 GORILLA_MAGIC @ word_bits 16 GORILLA_VERSION @
     word_bits 16 (if v2 then 84 else 80 :: 16 word) @
     word_bits 32 count @ word_bits 32 compressed_size @ word_bits 32 (count * 16) @
     word_bits 32 checksum @ word_bits 64 first_ts @ word_bits 32 first_delta32 @
     word_bits 64 first_value_bits @ word_bits 32 ts_bit_len @ word_bits 32 val_bit_len @
     word_bits 32 total_bits32 @ word_bits 64 compression_ratio @ word_bits 64 creation_time @
     word_bits 32 flags @ (if v2 then word_bits 32 scale_decimals else [])"

subsection \<open>Readers\<close>

text \<open>The bits a reader may still read, whether its bit count stays inside its bytes,
  and the reader moved on by \<open>n\<close> bits.\<close>

definition r_bits :: "BitReader \<Rightarrow> bool list" where
  "r_bits r = take (r_total_bits r) (bytes_bits (r_data r))"

definition r_rest :: "BitReader \<Rightarrow> bool list" where
  "r_rest r = drop (r_pos r) (r_bits r)"

definition r_ok :: "BitReader \<Rightarrow> bool" where
  "r_ok r = (r_total_bits r \<le> 8 * length (r_data r))"

definition r_adv :: "nat \<Rightarrow> BitReader \<Rightarrow> BitReader" where
  "r_adv n r = r\<lparr>r_pos := r_pos r + n\<rparr>"

text \<open>The sign extension inside \<^verbatim>\<open>read_signed\<close>.\<close>

definition sign_extend :: "int \<Rightarrow> u64 \<Rightarrow> u64" where
  "sign_extend nbits raw =
     (if nbits \<ge> 64 then raw
      else if raw AND push_bit (nat (nbits - 1)) 1 \<noteq> 0
        then raw OR NOT (push_bit (nat nbits) 1 - 1)
        else raw)"

subsection \<open>The outer header as the decoder sees it\<close>

text \<open>
  The parse of the outer header with every read replaced by the field it returns, for
  buffers of 80 bytes and more: the checks in the order of the source, then the payload.
\<close>

definition decode_header_spec :: "env \<Rightarrow> byte list \<Rightarrow> error + (i64 \<times> double_bits) list" where
  "decode_header_spec env data =
     (let magic = header_field data 0 64;
          version = header_field data 64 16;
          header_size = header_field data 80 16;
          count = (ucast (header_field data 96 32) :: u32);
          compressed_size = (ucast (header_field data 128 32) :: u32);
          flags = (ucast (header_field data 608 32) :: u32);
          scale_decimals = (if header_size = 84 then ucast (header_field data 640 32) else 0 :: u32)
      in if magic \<noteq> GORILLA_MAGIC then Inl InvalidMagic
         else if version > ucast GORILLA_VERSION then Inl UnsupportedVersion
         else if header_size \<noteq> 80 \<and> header_size \<noteq> 84 then Inl InvalidHeaderSize
         else if length data < unat header_size then Inl DataSmallerThanHeader
         else if unat header_size + unat compressed_size > length data
           then Inl CompressedBeyondInput
         else decode_payload env (drop (unat header_size) data) (unat compressed_size) count
                flags scale_decimals)"

text \<open>The errors of the outer-header validation, and the header-validation cases of
  the specification: a buffer that is too short, a wrong magic constant, a version above
  1, a header size other than 80 and 84, a buffer shorter than its header, a compressed
  size that reaches behind the buffer.\<close>

definition header_error :: "error \<Rightarrow> bool" where
  "header_error e =
     (e = DataTooSmall \<or> e = InvalidMagic \<or> e = UnsupportedVersion \<or> e = InvalidHeaderSize \<or>
      e = DataSmallerThanHeader \<or> e = CompressedBeyondInput)"

definition header_violation :: "byte list \<Rightarrow> bool" where
  "header_violation data =
     (length data < 80 \<or>
      header_field data 0 64 \<noteq> GORILLA_MAGIC \<or>
      header_field data 64 16 > 1 \<or>
      (header_field data 80 16 \<noteq> 80 \<and> header_field data 80 16 \<noteq> 84) \<or>
      length data < unat (header_field data 80 16) \<or>
      unat (header_field data 80 16) + unat (ucast (header_field data 128 32) :: u32)
        > length data)"

definition past_header :: "error + 'a \<Rightarrow> bool" where
  "past_header r = (case r of Inl e \<Rightarrow> \<not> header_error e | Inr x \<Rightarrow> True)"

subsection \<open>Options and examples\<close>

text \<open>The three values that \<^verbatim>\<open>nif_gorilla_encode\<close> reads from the options map.\<close>

definition opts_vm :: "encode_opts \<Rightarrow> bool" where
  "opts_vm opts = (case opt_victoria_metrics opts of Some b \<Rightarrow> b | None \<Rightarrow> False)"

definition opts_counter :: "encode_opts \<Rightarrow> bool" where
  "opts_counter opts = (case opt_is_counter opts of Some b \<Rightarrow> b | None \<Rightarrow> False)"

definition opts_scale_n :: "encode_opts \<Rightarrow> int" where
  "opts_scale_n opts =
     (case opt_scale_decimals opts of
        Some (ScaleInt sval) \<Rightarrow> sint (ucast sval :: 32 word)
      | _ \<Rightarrow> - 1)"

text \<open>Options with \<^verbatim>\<open>is_counter\<close> true, preprocessing off and no explicit scale.\<close>

definition counter_only_opts :: encode_opts where
  "counter_only_opts =
     \<lparr>opt_victoria_metrics = None, opt_is_counter = Some True, opt_scale_decimals = None\<rparr>"

definition counter_auto_opts :: encode_opts where
  "counter_auto_opts =
     \<lparr>opt_victoria_metrics = Some False, opt_is_counter = Some True,
      opt_scale_decimals = Some ScaleAuto\<rparr>"

text \<open>Sample lists for the closed examples; the values are the doubles 1.0 and 1.5.\<close>

definition example_samples :: "(i64 \<times> double_bits) list" where
  "example_samples =
     [(1000, 0x3FF0000000000000), (2000, 0x3FF8000000000000), (3001, 0x3FF8000000000000)]"

definition single_sample :: "(i64 \<times> double_bits) list" where
  "single_sample = [(1000, 0x3FF0000000000000)]"

section \<open>The writer's invariant\<close>

lemma bw_flush_bits_lt8: "w_bits (bw_flush w) < 8"
proof (induction w rule: bw_flush.induct)
  case (1 w)
  show ?case
  proof (cases "w_bits w \<ge> 8")
    case True
    with "1" show ?thesis by (subst bw_flush.simps) (simp add: Let_def)
  next
    case False
    then show ?thesis by (subst bw_flush.simps) simp
  qed
qed

lemma bw_flush_bits_ge0: "0 \<le> w_bits w \<Longrightarrow> 0 \<le> w_bits (bw_flush w)"
proof (induction w rule: bw_flush.induct)
  case (1 w)
  show ?case
  proof (cases "w_bits w \<ge> 8")
    case True
    with "1" show ?thesis by (subst bw_flush.simps) (simp add: Let_def)
  next
    case False
    with "1.prems" show ?thesis by (subst bw_flush.simps) simp
  qed
qed

lemma bw_flush_total_bits: "0 \<le> w_bits w \<Longrightarrow> bw_total_bits (bw_flush w) = bw_total_bits w"
proof (induction w rule: bw_flush.induct)
  case (1 w)
  show ?case
  proof (cases "w_bits w \<ge> 8")
    case True
    with "1" show ?thesis
      by (subst bw_flush.simps) (simp add: Let_def bw_total_bits_def nat_diff_distrib)
  next
    case False
    then show ?thesis by (subst bw_flush.simps) simp
  qed
qed

lemma bw_write_bits_range:
  "0 \<le> w_bits w \<Longrightarrow> w_bits w < 8 \<Longrightarrow> 0 \<le> w_bits (bw_write w v n) \<and> w_bits (bw_write w v n) < 8"
proof (induction w v n rule: bw_write.induct)
  case (1 w v nbits)
  show ?case
  proof (cases "nbits \<le> 0")
    case True
    with "1.prems" show ?thesis by (subst bw_write.simps, subst bw_write.simps) simp
  next
    case pos: False
    show ?thesis
    proof (cases "nbits > 32")
      case True
      from "1.IH"(1) [OF pos True "1.prems"]
      have a: "0 \<le> w_bits (bw_write w (drop_bit 32 v) (nbits - 32))"
        and b: "w_bits (bw_write w (drop_bit 32 v) (nbits - 32)) < 8" by simp_all
      from "1.IH"(2) [OF pos True a b] pos True show ?thesis
        by (subst bw_write.simps, subst (2) bw_write.simps) simp
    next
      case False
      with pos "1.prems" show ?thesis
        by (subst bw_write.simps, subst bw_write.simps)
           (simp add: Let_def bw_flush_bits_lt8 bw_flush_bits_ge0)
    qed
  qed
qed

lemma bw_write_signed_bits_range:
  "0 \<le> w_bits w \<Longrightarrow> w_bits w < 8 \<Longrightarrow>
   0 \<le> w_bits (bw_write_signed w v n) \<and> w_bits (bw_write_signed w v n) < 8"
  unfolding bw_write_signed_def Let_def by (rule bw_write_bits_range)

lemma reachable_bits_range: "reachable w \<Longrightarrow> 0 \<le> w_bits w \<and> w_bits w < 8"
proof (induction rule: reachable.induct)
  case reach_new
  show ?case by (simp add: BitWriter_new_def)
next
  case (reach_write w v n)
  then show ?case using bw_write_bits_range by blast
next
  case (reach_write_signed w v n)
  then show ?case using bw_write_signed_bits_range by blast
next
  case (reach_flush w)
  then show ?case by (simp add: bw_flush_bits_lt8 bw_flush_bits_ge0)
qed

text \<open>
  C8. After every bw_write, signed bw_write and bw_flush, starting from a fresh writer, the total
  bit count is 8 times the number of committed bytes plus the pending bit count, and the
  pending bit count is at least 0 and less than 8.
\<close>

theorem bitwriter_invariant:
  "reachable w \<Longrightarrow>
   int (bw_total_bits w) = 8 * int (length (w_out w)) + w_bits w \<and> 0 \<le> w_bits w \<and> w_bits w < 8"
  using reachable_bits_range [of w] by (simp add: bw_total_bits_def)

theorem bitwriter_invariant_witness:
  "reachable (bw_write_signed (bw_write BitWriter_new 5 3) 64 7) \<and>
   int (bw_total_bits (bw_write_signed (bw_write BitWriter_new 5 3) 64 7))
     = 8 * int (length (w_out (bw_write_signed (bw_write BitWriter_new 5 3) 64 7)))
       + w_bits (bw_write_signed (bw_write BitWriter_new 5 3) 64 7) \<and>
   0 \<le> w_bits (bw_write_signed (bw_write BitWriter_new 5 3) 64 7) \<and>
   w_bits (bw_write_signed (bw_write BitWriter_new 5 3) 64 7) < 8"
proof -
  have r: "reachable (bw_write_signed (bw_write BitWriter_new 5 3) 64 7)"
    by (intro reachable.intros)
  show ?thesis using r bitwriter_invariant [OF r] by simp
qed

section \<open>What a writer has written\<close>

lemma length_word_bits [simp]: "length (word_bits n v) = n"
  by (induction n) auto

lemma word_bits_cong:
  "(\<And>i. i < n \<Longrightarrow> bit a i = bit b i) \<Longrightarrow> word_bits n a = word_bits n b"
  by (induction n) auto

lemma word_bits_add:
  "word_bits (m + n) v = word_bits m (drop_bit n v) @ word_bits n v"
  by (induction m) (auto simp: bit_drop_bit_eq add.commute)

lemma bytes_bits_append [simp]: "bytes_bits (xs @ ys) = bytes_bits xs @ bytes_bits ys"
  by (simp add: bytes_bits_def)

lemma bytes_bits_Nil [simp]: "bytes_bits [] = []"
  by (simp add: bytes_bits_def)

lemma bytes_bits_Cons: "bytes_bits (b # bs) = word_bits 8 b @ bytes_bits bs"
  by (simp add: bytes_bits_def)

lemma length_bytes_bits [simp]: "length (bytes_bits bs) = 8 * length bs"
  by (induction bs) (auto simp: bytes_bits_Cons)

lemma ff_mask: "(0xFF :: 'a::len word) = mask 8"
  by (simp add: mask_eq_exp_minus_1)

lemma flush_byte:
  "word_bits 8 (ucast (drop_bit b (buf :: u64) AND 0xFF) :: byte) @ word_bits b buf
     = word_bits (8 + b) buf"
proof -
  have "word_bits 8 (ucast (drop_bit b buf AND 0xFF) :: byte) = word_bits 8 (drop_bit b buf)"
    by (rule word_bits_cong) (auto simp: bit_simps ff_mask)
  then show ?thesis by (simp add: word_bits_add)
qed

lemma bw_flush_bits: "0 \<le> w_bits w \<Longrightarrow> bw_bits (bw_flush w) = bw_bits w"
proof (induction w rule: bw_flush.induct)
  case (1 w)
  show ?case
  proof (cases "w_bits w \<ge> 8")
    case True
    define b where "b = nat (w_bits w - 8)"
    have nb: "nat (w_bits w) = 8 + b" using True by (simp add: b_def)
    from True "1" have
      "bw_bits (bw_flush w) =
       bw_bits (w\<lparr>w_bits := w_bits w - 8,
                  w_out := w_out w @ [ucast (drop_bit (nat (w_bits w - 8)) (w_buf w) AND 0xFF)]\<rparr>)"
      by (subst bw_flush.simps) (simp add: Let_def)
    also have "\<dots> = bw_bits w"
      using flush_byte [of b "w_buf w"]
      by (simp add: bw_bits_def bytes_bits_Cons nb b_def [symmetric])
    finally show ?thesis .
  next
    case False
    then show ?thesis by (subst bw_flush.simps) simp
  qed
qed

lemma push1_mask: "push_bit k (1 :: 'a::len word) - 1 = mask k"
  by (simp add: mask_eq_exp_minus_1)

lemma exp_mask: "2 ^ k - (1 :: 'a::len word) = mask k"
  by (simp add: mask_eq_exp_minus_1)

lemma word_bits_and_mask [simp]: "word_bits k (v AND mask k) = word_bits k v"
  by (rule word_bits_cong) (auto simp: bit_simps dest: bit_imp_le_length)

lemma bw_write_small:
  assumes "bw_inv w" "0 < n" "n \<le> 32"
  shows "bw_bits (bw_write w v n) = bw_bits w @ word_bits (nat n) v"
proof -
  define k where "k = nat n"
  define j where "j = nat (w_bits w)"
  have k: "0 < k" "k \<le> 32" "n = int k" using assms by (auto simp: k_def)
  have j: "j < 8" "w_bits w = int j" using assms by (auto simp: j_def bw_inv_def)
  let ?nb = "push_bit k (w_buf w) OR (v AND mask k)"
  have lo: "word_bits k ?nb = word_bits k v"
    by (rule word_bits_cong) (auto simp: bit_simps dest: bit_imp_le_length)
  have hi: "word_bits j (drop_bit k ?nb) = word_bits j (w_buf w)"
    using j k by (intro word_bits_cong) (auto simp: bit_simps)
  have "bw_write w v n = bw_flush (w\<lparr>w_buf := ?nb, w_bits := w_bits w + n\<rparr>)"
    using assms by (subst bw_write.simps) (simp add: Let_def exp_mask k_def)
  then have "bw_bits (bw_write w v n) = bw_bits (w\<lparr>w_buf := ?nb, w_bits := w_bits w + n\<rparr>)"
    using j k by (simp add: bw_flush_bits)
  also have "\<dots> = bytes_bits (w_out w) @ word_bits (j + k) ?nb"
    using j k by (simp add: bw_bits_def nat_add_distrib)
  also have "\<dots> = bytes_bits (w_out w) @ word_bits j (w_buf w) @ word_bits k v"
    by (simp only: word_bits_add lo hi)
  also have "\<dots> = bw_bits w @ word_bits k v"
    by (simp add: bw_bits_def j_def)
  finally show ?thesis by (simp add: k_def)
qed

lemma bw_write_inv: "bw_inv w \<Longrightarrow> bw_inv (bw_write w v n)"
  unfolding bw_inv_def using bw_write_bits_range by blast

lemma low32_mask: "(0xFFFFFFFF :: 'a::len word) = mask 32"
  by (simp add: mask_eq_exp_minus_1)

lemma bw_write_bits:
  assumes "bw_inv w" "0 \<le> n" "n \<le> 64"
  shows "bw_bits (bw_write w v n) = bw_bits w @ word_bits (nat n) v"
proof (cases "n = 0")
  case True
  then show ?thesis by (subst bw_write.simps) simp
next
  case nz: False
  show ?thesis
  proof (cases "n \<le> 32")
    case True
    with assms nz show ?thesis by (simp add: bw_write_small)
  next
    case False
    define m where "m = nat (n - 32)"
    have m: "0 < n - 32" "n - 32 \<le> 32" "nat n = m + 32" using False assms by (auto simp: m_def)
    have lo: "word_bits 32 (v AND mask 32) = word_bits 32 v"
      by (rule word_bits_cong) (auto simp: bit_simps)
    have "bw_write w v n = bw_write (bw_write w (drop_bit 32 v) (n - 32)) (v AND 0xFFFFFFFF) 32"
      using False nz assms by (subst bw_write.simps) simp
    then show ?thesis
      using assms m
      by (simp add: bw_write_small bw_write_inv low32_mask lo word_bits_add m_def [symmetric])
  qed
qed

lemma bw_write_signed_bits:
  assumes "bw_inv w" "0 \<le> n" "n \<le> 64"
  shows "bw_bits (bw_write_signed w v n) = bw_bits w @ word_bits (nat n) v"
proof -
  show ?thesis
    using assms by (simp add: bw_write_signed_def bw_write_bits exp_mask Let_def)
qed

lemma bw_write_signed_inv: "bw_inv w \<Longrightarrow> bw_inv (bw_write_signed w v n)"
  unfolding bw_inv_def using bw_write_signed_bits_range by blast

lemma bw_inv_new [simp]: "bw_inv BitWriter_new"
  by (simp add: bw_inv_def BitWriter_new_def)

lemma bw_bits_new [simp]: "bw_bits BitWriter_new = []"
  by (simp add: bw_bits_def BitWriter_new_def)

lemma length_bw_bits: "bw_inv w \<Longrightarrow> length (bw_bits w) = bw_total_bits w"
  by (simp add: bw_bits_def bw_total_bits_def bw_inv_def)

section \<open>The encoders write the codes\<close>

lemma prefix_bits:
  "word_bits 1 (0 :: u64) = [False]"
  "word_bits 2 (2 :: u64) = [True, False]"
  "word_bits 3 (6 :: u64) = [True, True, False]"
  "word_bits 4 (14 :: u64) = [True, True, True, False]"
  "word_bits 4 (15 :: u64) = [True, True, True, True]"
  by (simp_all add: numeral_eq_Suc)

lemma encode_first_delta_bits:
  "bw_inv w \<Longrightarrow> bw_bits (encode_first_delta w d) = bw_bits w @ varlen_code d"
  by (simp add: encode_first_delta_def varlen_code_def bw_write_bits bw_write_signed_bits
      bw_write_inv prefix_bits)

lemma encode_first_delta_inv: "bw_inv w \<Longrightarrow> bw_inv (encode_first_delta w d)"
  by (simp add: encode_first_delta_def bw_write_inv bw_write_signed_inv)

lemma encode_delta_of_delta_bits:
  "bw_inv w \<Longrightarrow> bw_bits (encode_delta_of_delta w d) = bw_bits w @ varlen_code d"
  by (simp add: encode_delta_of_delta_def varlen_code_def bw_write_bits bw_write_signed_bits
      bw_write_inv prefix_bits)

lemma encode_delta_of_delta_inv: "bw_inv w \<Longrightarrow> bw_inv (encode_delta_of_delta w d)"
  by (simp add: encode_delta_of_delta_def bw_write_inv bw_write_signed_inv)

lemma encode_timestamps_loop_bits:
  "bw_inv w \<Longrightarrow>
   bw_bits (encode_timestamps_loop w p pd ts) = bw_bits w @ dod_codes p pd ts \<and>
   bw_inv (encode_timestamps_loop w p pd ts)"
  by (induction ts arbitrary: w p pd)
     (simp_all add: Let_def encode_delta_of_delta_bits encode_delta_of_delta_inv)

lemma encode_timestamps_bits:
  "bw_bits (ts_writer (encode_timestamps ts)) = ts_code ts \<and>
   bw_inv (ts_writer (encode_timestamps ts))"
  by (simp add: encode_timestamps_def ts_code_def Let_def bw_write_bits bw_write_inv
      encode_first_delta_bits encode_first_delta_inv encode_timestamps_loop_bits
      split: list.splits)

lemma clz_step_nonneg: "0 \<le> fst nv \<Longrightarrow> 0 \<le> fst (clz_step b k nv)"
  by (cases nv) (simp add: clz_step_def)

lemma ctz_step_nonneg: "0 \<le> fst nv \<Longrightarrow> 0 \<le> fst (ctz_step b k nv)"
  by (cases nv) (simp add: ctz_step_def)

lemma clz_nonneg: "0 \<le> count_leading_zeros_64 x"
  unfolding count_leading_zeros_64_def Let_def
  by (simp add: clz_step_nonneg add_nonneg_nonneg)

lemma ctz_nonneg: "0 \<le> count_trailing_zeros_64 x"
  unfolding count_trailing_zeros_64_def Let_def
  by (simp add: ctz_step_nonneg add_nonneg_nonneg)

lemma encode_value_step_zero_window:
  "encode_value_step (w, prev_bits, 0, 0) v =
     (if float_to_bits v XOR prev_bits = 0 then bw_write w 0 1
      else bw_write (bw_write w 2 2) (float_to_bits v XOR prev_bits) 64,
      float_to_bits v, 0, 0)"
  by (simp add: encode_value_step_def Let_def clz_nonneg ctz_nonneg bitmask_def)

lemma xor_eq_zero_iff: "(a XOR b = 0) = (a = (b :: 'a::len word))"
  by (metis bit.xor_self xor.left_neutral xor.assoc xor.commute)

lemma encode_value_step_bits:
  assumes "bw_inv w"
  shows "bw_bits (fst (encode_value_step (w, p, 0, 0) v)) = bw_bits w @ xor_code p v"
    and "bw_inv (fst (encode_value_step (w, p, 0, 0) v))"
    and "snd (encode_value_step (w, p, 0, 0) v) = (v, 0, 0)"
  using assms
  by (simp_all add: encode_value_step_zero_window float_to_bits_def xor_eq_zero_iff xor_code_def
      bw_write_bits bw_write_inv prefix_bits)

lemma encode_values_loop_bits:
  "bw_inv w \<Longrightarrow>
   bw_bits (fst (encode_values_loop (w, p, 0, 0) vs)) = bw_bits w @ xor_codes p vs \<and>
   bw_inv (fst (encode_values_loop (w, p, 0, 0) vs)) \<and>
   snd (snd (encode_values_loop (w, p, 0, 0) vs)) = (0, 0)"
proof (induction vs arbitrary: w p)
  case Nil
  then show ?case by simp
next
  case (Cons v vs)
  obtain w' where st: "encode_value_step (w, p, 0, 0) v = (w', v, 0, 0)"
    using encode_value_step_bits(3) [of w p v] Cons.prems
    by (cases "encode_value_step (w, p, 0, 0) v") auto
  have w': "bw_bits w' = bw_bits w @ xor_code p v" "bw_inv w'"
    using encode_value_step_bits(1,2) [OF Cons.prems, of p v] st by simp_all
  from Cons.IH [OF w'(2), of v] show ?case by (simp add: st w'(1))
qed

lemma encode_values_bits:
  "bw_bits (val_writer (encode_values vs)) = val_code vs \<and>
   bw_inv (val_writer (encode_values vs))"
proof (cases vs)
  case Nil
  then show ?thesis by (simp add: encode_values_def val_code_def)
next
  case (Cons v0 rest)
  have w: "bw_inv (bw_write BitWriter_new v0 64)"
    "bw_bits (bw_write BitWriter_new v0 64) = word_bits 64 v0"
    by (simp_all add: bw_write_inv bw_write_bits)
  show ?thesis
    using encode_values_loop_bits [OF w(1), of v0 rest] w
    by (simp add: Cons encode_values_def val_code_def Let_def float_to_bits_def)
qed

lemma word_bits_zero: "(\<And>i. i < n \<Longrightarrow> \<not> bit a i) \<Longrightarrow> word_bits n a = replicate n False"
  by (induction n) auto

lemma bw_to_bytes_bits:
  assumes "bw_inv w"
  shows "bytes_bits (bw_to_bytes w) = bw_bits w @ replicate (nat ((8 - w_bits w) mod 8)) False"
proof (cases "w_bits w = 0")
  case True
  then show ?thesis by (simp add: bw_to_bytes_def bw_bits_def)
next
  case False
  define j where "j = nat (w_bits w)"
  have j: "0 < j" "j < 8" "w_bits w = int j" using assms False by (auto simp: j_def bw_inv_def)
  let ?b = "ucast (push_bit (8 - j) (w_buf w)) :: byte"
  have "word_bits (j + (8 - j)) ?b = word_bits j (drop_bit (8 - j) ?b) @ word_bits (8 - j) ?b"
    by (rule word_bits_add)
  moreover have "word_bits j (drop_bit (8 - j) ?b) = word_bits j (w_buf w)"
    using j by (intro word_bits_cong) (auto simp: bit_simps)
  moreover have "word_bits (8 - j) ?b = replicate (8 - j) False"
    by (rule word_bits_zero) (auto simp: bit_simps)
  ultimately have "word_bits 8 ?b = word_bits j (w_buf w) @ replicate (8 - j) False"
    using j by simp
  moreover have "(8 - int j) mod 8 = 8 - int j"
    using j by (subst mod_pos_pos_trivial) auto
  moreover have "nat (8 - int j) = 8 - j" using j by (simp add: nat_diff_distrib)
  ultimately show ?thesis
    using j by (simp add: bw_to_bytes_def bw_bits_def bytes_bits_Cons)
qed

lemma bw_to_bytes_aligned:
  assumes "bw_inv w" "length (bw_bits w) mod 8 = 0"
  shows "bytes_bits (bw_to_bytes w) = bw_bits w"
proof -
  have "nat (w_bits w) < 8"
    using assms(1) unfolding bw_inv_def by linarith
  then have "nat (w_bits w) mod 8 = nat (w_bits w)"
    by (rule mod_less)
  then have "w_bits w = 0"
    using assms by (simp add: bw_bits_def bw_inv_def)
  then show ?thesis using bw_to_bytes_bits [OF assms(1)] by simp
qed

lemma word_bits_ucast8: "word_bits 8 (ucast (b :: byte) :: u64) = word_bits 8 b"
  by (rule word_bits_cong) (auto simp: bit_simps)

lemma write_bytes_bits:
  "bw_inv p \<Longrightarrow>
   bw_bits (foldl (\<lambda>p b. bw_write p (ucast b) 8) p bs) = bw_bits p @ bytes_bits bs \<and>
   bw_inv (foldl (\<lambda>p b. bw_write p (ucast b) 8) p bs)"
  by (induction bs arbitrary: p)
     (simp_all add: bw_write_bits bw_write_inv bytes_bits_Cons word_bits_ucast8)

lemma append_substream_bits:
  assumes "bw_inv p" "bw_inv w"
  shows "bw_bits (append_substream p (bw_to_bytes w) (bw_total_bits w)) = bw_bits p @ bw_bits w"
    and "bw_inv (append_substream p (bw_to_bytes w) (bw_total_bits w))"
proof -
  define j where "j = nat (w_bits w)"
  have j: "j < 8" "w_bits w = int j" using assms by (auto simp: j_def bw_inv_def)
  have tb: "bw_total_bits w div 8 = length (w_out w)" "bw_total_bits w mod 8 = j"
    "(bw_total_bits w = 0) = (w_out w = [] \<and> j = 0)"
    using j by (auto simp: bw_total_bits_def)
  have tk: "take (length (w_out w)) (bw_to_bytes w) = w_out w"
    by (simp add: bw_to_bytes_def)
  let ?q = "foldl (\<lambda>p b. bw_write p (ucast b) 8) p (w_out w)"
  have q: "bw_bits ?q = bw_bits p @ bytes_bits (w_out w)" "bw_inv ?q"
    using write_bytes_bits [OF assms(1)] by simp_all
  show "bw_bits (append_substream p (bw_to_bytes w) (bw_total_bits w)) = bw_bits p @ bw_bits w"
  proof (cases "j = 0")
    case True
    then show ?thesis
      using j q tb tk
      by (simp add: append_substream_def Let_def bw_bits_def [of w] bw_total_bits_def)
  next
    case False
    let ?b = "ucast (push_bit (8 - j) (w_buf w)) :: byte"
    have nth: "bw_to_bytes w ! length (w_out w) = ?b"
      using j False by (simp add: bw_to_bytes_def nat_diff_distrib)
    have "word_bits j (ucast (drop_bit (8 - j) ?b) :: u64) = word_bits j (w_buf w)"
      using j by (intro word_bits_cong) (auto simp: bit_simps)
    then show ?thesis
      using j q tb tk nth False
      by (simp add: append_substream_def Let_def bw_bits_def [of w] bw_write_bits)
  qed
  show "bw_inv (append_substream p (bw_to_bytes w) (bw_total_bits w))"
    using q tb tk assms(1) by (simp add: append_substream_def Let_def bw_write_inv)
qed

section \<open>The layout of the headers\<close>

lemma word_bits_ucast32: "word_bits 32 (ucast (c :: u32) :: u64) = word_bits 32 c"
  by (rule word_bits_cong) (auto simp: bit_simps)

lemma word_bits_scast32: "word_bits 32 (scast (c :: 32 word) :: u64) = word_bits 32 c"
  by (rule word_bits_cong) (auto simp: bit_simps)

lemma word_bits_ucast16: "word_bits 16 (ucast (c :: 16 word) :: u64) = word_bits 16 c"
  by (rule word_bits_cong) (auto simp: bit_simps)

lemma word_bits_hs:
  "word_bits 16 (84 :: u64) = word_bits 16 (84 :: 16 word)"
  "word_bits 16 (80 :: u64) = word_bits 16 (80 :: 16 word)"
  using word_bits_ucast16 [of 84] word_bits_ucast16 [of 80] by simp_all

lemmas header_write_simps =
  bw_write_bits bw_write_inv bw_write_signed_bits bw_write_signed_inv
  word_bits_ucast32 word_bits_scast32 word_bits_ucast16

lemma build_inner_header_bits:
  "bytes_bits (build_inner_header c ft fv fd tb vb) = inner_header_bits c ft fv fd tb vb"
  unfolding build_inner_header_def Let_def
  by (subst bw_to_bytes_aligned) (simp_all add: header_write_simps inner_header_bits_def)

lemma length_inner_header_bits [simp]: "length (inner_header_bits c ft fv fd tb vb) = 256"
  by (simp add: inner_header_bits_def)

lemma build_outer_header_bits:
  "bytes_bits (build_outer_header c cs crc ft fd fv tb vb tot ratio ctime fl sc v2)
     = outer_header_bits c cs crc ft fd fv tb vb tot ratio ctime fl sc v2"
  unfolding build_outer_header_def Let_def
  by (subst bw_to_bytes_aligned)
     (simp_all add: header_write_simps outer_header_bits_def float_to_bits_def word_bits_hs)

lemma length_outer_header_bits [simp]:
  "length (outer_header_bits c cs crc ft fd fv tb vb tot ratio ctime fl sc v2)
     = (if v2 then 672 else 640)"
  by (simp add: outer_header_bits_def)

lemma length_build_outer_header:
  "length (build_outer_header c cs crc ft fd fv tb vb tot ratio ctime fl sc v2)
     = (if v2 then 84 else 80)"
proof -
  have "8 * length (build_outer_header c cs crc ft fd fv tb vb tot ratio ctime fl sc v2)
          = (if v2 then 672 else 640)"
    using length_outer_header_bits [of c cs crc ft fd fv tb vb tot ratio ctime fl sc v2]
    unfolding build_outer_header_bits [symmetric] length_bytes_bits .
  then show ?thesis by (simp split: if_splits)
qed

section \<open>What a reader reads\<close>

lemma word_bits_nth: "i < n \<Longrightarrow> word_bits n v ! i = bit v (n - 1 - i)"
proof (induction n arbitrary: i)
  case 0
  then show ?case by simp
next
  case (Suc n)
  then show ?case by (cases i) auto
qed

lemma bytes_bits_nth:
  "i < 8 * length bs \<Longrightarrow> bytes_bits bs ! i = bit (bs ! (i div 8)) (7 - i mod 8)"
proof (induction bs arbitrary: i)
  case Nil
  then show ?case by simp
next
  case (Cons b bs)
  show ?case
  proof (cases "i < 8")
    case True
    then show ?thesis by (simp add: bytes_bits_Cons nth_append word_bits_nth)
  next
    case False
    then obtain j where j: "i = 8 + j" by (metis le_add_diff_inverse not_less)
    with Cons.prems have "j < 8 * length bs" by simp
    moreover have "(8 + j) div 8 = Suc (j div 8)" by simp
    ultimately show ?thesis using Cons.IH [of j] by (simp add: bytes_bits_Cons nth_append j)
  qed
qed

lemma bit_extract: "(ucast (drop_bit k (b :: byte)) AND 1 :: u64) = of_bool (bit b k)"
  by (rule bit_eqI) (auto simp: bit_simps)

lemma r_adv_simps [simp]:
  "r_rest (r_adv n r) = drop n (r_rest r)"
  "r_ok (r_adv n r) = r_ok r"
  "r_adv 0 r = r"
  by (simp_all add: r_rest_def r_bits_def r_ok_def r_adv_def add.commute)

lemma r_adv_merge: "r_adv m (r_adv n r) = r_adv (n + m) r"
  by (simp add: r_adv_def)

lemma length_r_rest: "r_ok r \<Longrightarrow> length (r_rest r) = r_total_bits r - r_pos r"
  by (simp add: r_rest_def r_bits_def r_ok_def)

lemma br_read_bit_rest:
  assumes "r_ok r" "r_rest r = b # bs"
  shows "br_read_bit r = Inr (of_bool b, r_adv 1 r)"
proof -
  have "length (r_rest r) > 0" using assms(2) by simp
  then have lt: "r_pos r < r_total_bits r" using length_r_rest [OF assms(1)] by simp
  then have lt8: "r_pos r < 8 * length (r_data r)" using assms(1) by (simp add: r_ok_def)
  then have idx: "r_pos r div 8 < length (r_data r)" by simp
  have "b = r_rest r ! 0" using assms(2) by simp
  also have "\<dots> = bytes_bits (r_data r) ! r_pos r"
    using lt lt8 by (simp add: r_rest_def r_bits_def)
  also have "\<dots> = bit (r_data r ! (r_pos r div 8)) (7 - r_pos r mod 8)"
    using lt8 by (rule bytes_bits_nth)
  finally have b: "b = bit (r_data r ! (r_pos r div 8)) (7 - r_pos r mod 8)" .
  show ?thesis
    using lt idx by (simp add: br_read_bit_def Let_def bit_extract b r_adv_def)
qed

lemma br_read_bit_end:
  assumes "r_ok r" "r_rest r = []"
  shows "br_read_bit r = Inl ReadPastEnd"
  using assms length_r_rest [OF assms(1)] by (simp add: br_read_bit_def)

lemma bindE_simps [simp]:
  "bindE (Inr x) f = f x"
  "bindE (Inl e) f = Inl e"
  by (simp_all add: bindE_def)

lemma br_read_loop_ok:
  "r_ok r \<Longrightarrow> n \<le> length (r_rest r) \<Longrightarrow>
   br_read_loop n acc r
     = Inr (foldl (\<lambda>acc b. push_bit 1 acc OR of_bool b) acc (take n (r_rest r)), r_adv n r)"
proof (induction n arbitrary: acc r)
  case 0
  then show ?case by simp
next
  case (Suc n)
  then obtain b bs where bs: "r_rest r = b # bs" by (cases "r_rest r") auto
  have "n \<le> length (r_rest (r_adv 1 r))" using Suc.prems bs by simp
  from Suc.IH [OF _ this] Suc.prems(1) show ?case
    by (simp add: br_read_bit_rest [OF Suc.prems(1) bs] bs r_adv_merge)
qed

lemma br_read_ok:
  "r_ok r \<Longrightarrow> nat n \<le> length (r_rest r) \<Longrightarrow>
   br_read r n = Inr (bl_word (take (nat n) (r_rest r)), r_adv (nat n) r)"
  by (simp add: br_read_def bl_word_def br_read_loop_ok)

lemma foldl_word_bits:
  "foldl (\<lambda>acc b. push_bit 1 acc OR of_bool b) (acc :: u64) (word_bits n (v :: 'a::len word))
     = push_bit n acc OR take_bit n (ucast v)"
proof (induction n arbitrary: acc)
  case 0
  then show ?case by simp
next
  case (Suc n)
  have "push_bit n (push_bit 1 acc OR of_bool (bit v n)) OR take_bit n (ucast v :: u64)
          = push_bit (Suc n) acc OR take_bit (Suc n) (ucast v)"
    by (rule bit_eqI) (auto simp: bit_simps less_Suc_eq dest: bit_imp_le_length)
  with Suc show ?case by simp
qed

lemma bl_word_word_bits: "bl_word (word_bits n v) = take_bit n (ucast v)"
  unfolding bl_word_def foldl_word_bits by simp

lemma br_read_code:
  assumes "r_ok r" "r_rest r = word_bits n v @ rest"
  shows "br_read r (int n) = Inr (take_bit n (ucast v), r_adv n r)"
  using assms by (simp add: br_read_ok bl_word_word_bits)

lemma skip_bits_ok:
  "r_ok r \<Longrightarrow> n \<le> length (r_rest r) \<Longrightarrow> skip_bits n r = Inr (r_adv n r)"
proof (induction n arbitrary: r)
  case 0
  then show ?case by simp
next
  case (Suc n)
  then obtain b bs where bs: "r_rest r = b # bs" by (cases "r_rest r") auto
  have "n \<le> length (r_rest (r_adv 1 r))" using Suc.prems bs by simp
  from Suc.IH [OF _ this] Suc.prems(1) show ?case
    by (simp add: br_read_bit_rest [OF Suc.prems(1) bs] r_adv_merge)
qed

section \<open>The decoders read the codes back\<close>

lemma br_read_bit_hd:
  "r_ok r \<Longrightarrow> r_rest r \<noteq> [] \<Longrightarrow> br_read_bit r = Inr (of_bool (hd (r_rest r)), r_adv 1 r)"
  by (cases "r_rest r") (simp_all add: br_read_bit_rest)

lemma sign_extend:
  assumes "0 < n" "n < 64"
  shows "(if take_bit n (v :: u64) AND push_bit (n - 1) 1 \<noteq> 0
          then take_bit n v OR NOT (push_bit n 1 - 1) else take_bit n v)
         = signed_take_bit (n - 1) v"
proof -
  obtain m where m: "n = Suc m" using assms(1) by (cases n) auto
  have c: "(take_bit n v AND push_bit (n - 1) 1 \<noteq> 0) = bit v m"
    using assms by (simp add: m and_exp_eq_0_iff_not_bit bit_simps)
  show ?thesis
    unfolding c push1_mask
    by (rule bit_eqI) (auto simp: m bit_simps min_def less_Suc_eq_le dest: bit_imp_le_length)
qed

lemma br_read_signed_code:
  assumes "r_ok r" "r_rest r = word_bits n (v :: u64) @ rest" "0 < n" "n < 64"
  shows "br_read_signed r (int n) = Inr (signed_take_bit (n - 1) v, r_adv n r)"
proof -
  have "br_read r (int n) = Inr (take_bit n v, r_adv n r)"
    using br_read_code [OF assms(1,2)] by simp
  moreover have "nat (int n - 1) = n - 1" by simp
  ultimately have "br_read_signed r (int n)
      = Inr (if take_bit n v AND push_bit (n - 1) 1 \<noteq> 0
             then take_bit n v OR NOT (push_bit n 1 - 1) else take_bit n v, r_adv n r)"
    using assms(3,4) by (simp add: br_read_signed_def del: push_bit_of_1)
  then show ?thesis by (simp only: sign_extend [OF assms(3,4)])
qed

lemma decode_first_delta_code:
  assumes "r_ok r" "r_rest r = varlen_code d @ rest"
  shows "decode_first_delta r = Inr (wire_delta d, r_adv (length (varlen_code d)) r)"
proof -
  consider (z) "d = 0"
    | (b7) "d \<noteq> 0" "- 63 \<le> sint d \<and> sint d \<le> 64"
    | (b9) "d \<noteq> 0" "\<not> (- 63 \<le> sint d \<and> sint d \<le> 64)" "- 255 \<le> sint d \<and> sint d \<le> 256"
    | (b12) "d \<noteq> 0" "\<not> (- 63 \<le> sint d \<and> sint d \<le> 64)"
        "\<not> (- 255 \<le> sint d \<and> sint d \<le> 256)" "- 2047 \<le> sint d \<and> sint d \<le> 2048"
    | (b32) "d \<noteq> 0" "\<not> (- 63 \<le> sint d \<and> sint d \<le> 64)"
        "\<not> (- 255 \<le> sint d \<and> sint d \<le> 256)" "\<not> (- 2047 \<le> sint d \<and> sint d \<le> 2048)"
    by blast
  then show ?thesis
  proof cases
    case z
    then have r0: "r_rest r = False # rest" using assms(2) by (simp add: varlen_code_def)
    show ?thesis
      using z
      by (simp add: decode_first_delta_def br_read_bit_rest [OF assms(1) r0] varlen_code_def
          wire_delta_def)
  next
    case b7
    then have c: "varlen_code d = [True, False] @ word_bits 7 d" by (simp add: varlen_code_def)
    have wd: "wire_delta d = signed_take_bit (7 - 1) d"
      using b7 by (auto simp: wire_delta_def)
    have r0: "r_rest r = True # False # word_bits 7 d @ rest" using assms(2) c by simp
    have r1: "r_rest (r_adv 1 r) = False # word_bits 7 d @ rest" using r0 by simp
    have r2: "r_rest (r_adv 1 (r_adv 1 r)) = word_bits 7 d @ rest" using r0 by simp
    have "br_read_signed (r_adv 1 (r_adv 1 r)) (int 7) = Inr (signed_take_bit (7 - 1) d, r_adv 7 (r_adv 1 (r_adv 1 r)))"
      using assms(1) r2 by (intro br_read_signed_code) simp_all
    then show ?thesis
      using assms(1) r0
      by (simp add: decode_first_delta_def br_read_bit_hd c wd r_adv_merge)
  next
    case b9
    then have c: "varlen_code d = [True, True, False] @ word_bits 9 d"
      by (simp add: varlen_code_def)
    have wd: "wire_delta d = signed_take_bit (9 - 1) d"
      using b9 by (auto simp: wire_delta_def)
    have r0: "r_rest r = True # True # False # word_bits 9 d @ rest" using assms(2) c by simp
    have r1: "r_rest (r_adv 1 r) = True # False # word_bits 9 d @ rest" using r0 by simp
    have r2: "r_rest (r_adv 1 (r_adv 1 r)) = False # word_bits 9 d @ rest" using r0 by simp
    have r3: "r_rest (r_adv 1 (r_adv 1 (r_adv 1 r))) = word_bits 9 d @ rest" using r0 by simp
    have "br_read_signed (r_adv 1 (r_adv 1 (r_adv 1 r))) (int 9) = Inr (signed_take_bit (9 - 1) d, r_adv 9 (r_adv 1 (r_adv 1 (r_adv 1 r))))"
      using assms(1) r3 by (intro br_read_signed_code) simp_all
    then show ?thesis
      using assms(1) r0
      by (simp add: decode_first_delta_def br_read_bit_hd c wd r_adv_merge)
  next
    case b12
    then have c: "varlen_code d = [True, True, True, False] @ word_bits 12 d"
      by (simp add: varlen_code_def)
    have wd: "wire_delta d = signed_take_bit (12 - 1) d"
      using b12 by (auto simp: wire_delta_def)
    have r0: "r_rest r = True # True # True # False # word_bits 12 d @ rest"
      using assms(2) c by simp
    have r1: "r_rest (r_adv 1 r) = True # True # False # word_bits 12 d @ rest" using r0 by simp
    have r2: "r_rest (r_adv 1 (r_adv 1 r)) = True # False # word_bits 12 d @ rest" using r0 by simp
    have r3: "r_rest (r_adv 1 (r_adv 1 (r_adv 1 r))) = False # word_bits 12 d @ rest" using r0 by simp
    have r4: "r_rest (r_adv 1 (r_adv 1 (r_adv 1 (r_adv 1 r)))) = word_bits 12 d @ rest" using r0 by simp
    have "br_read_signed (r_adv 1 (r_adv 1 (r_adv 1 (r_adv 1 r)))) (int 12)
            = Inr (signed_take_bit (12 - 1) d, r_adv 12 (r_adv 1 (r_adv 1 (r_adv 1 (r_adv 1 r)))))"
      using assms(1) r4 by (intro br_read_signed_code) simp_all
    then show ?thesis
      using assms(1) r0
      by (simp add: decode_first_delta_def br_read_bit_hd c wd r_adv_merge)
  next
    case b32
    then have c: "varlen_code d = [True, True, True, True] @ word_bits 32 d"
      by (simp add: varlen_code_def)
    have wd: "wire_delta d = signed_take_bit (32 - 1) d"
      using b32 by (auto simp: wire_delta_def)
    have r0: "r_rest r = True # True # True # True # word_bits 32 d @ rest"
      using assms(2) c by simp
    have r1: "r_rest (r_adv 1 r) = True # True # True # word_bits 32 d @ rest" using r0 by simp
    have r2: "r_rest (r_adv 1 (r_adv 1 r)) = True # True # word_bits 32 d @ rest" using r0 by simp
    have r3: "r_rest (r_adv 1 (r_adv 1 (r_adv 1 r))) = True # word_bits 32 d @ rest" using r0 by simp
    have r4: "r_rest (r_adv 1 (r_adv 1 (r_adv 1 (r_adv 1 r)))) = word_bits 32 d @ rest" using r0 by simp
    have "br_read_signed (r_adv 1 (r_adv 1 (r_adv 1 (r_adv 1 r)))) (int 32)
            = Inr (signed_take_bit (32 - 1) d, r_adv 32 (r_adv 1 (r_adv 1 (r_adv 1 (r_adv 1 r)))))"
      using assms(1) r4 by (intro br_read_signed_code) simp_all
    then show ?thesis
      using assms(1) r0
      by (simp add: decode_first_delta_def br_read_bit_hd c wd r_adv_merge)
  qed
qed

lemma decode_delta_of_delta_eq: "decode_delta_of_delta = decode_first_delta"
  by (rule ext) (simp add: decode_delta_of_delta_def decode_first_delta_def)

lemma decode_timestamps_loop_code:
  "r_ok r \<Longrightarrow> r_rest r = dod_codes p pd ts @ rest \<Longrightarrow>
   decode_timestamps_loop (length ts) r od acc = Inr (acc @ replay_loop p pd (last acc) od ts)"
proof (induction ts arbitrary: r p pd od acc)
  case Nil
  then show ?case by simp
next
  case (Cons t ts)
  let ?d = "(t - p) - pd"
  let ?r = "r_adv (length (varlen_code ?d)) r"
  have r0: "r_rest r = varlen_code ?d @ (dod_codes t (t - p) ts @ rest)"
    using Cons.prems(2) by simp
  have step: "decode_delta_of_delta r = Inr (wire_delta ?d, ?r)"
    unfolding decode_delta_of_delta_eq by (rule decode_first_delta_code [OF Cons.prems(1) r0])
  have r1: "r_rest ?r = dod_codes t (t - p) ts @ rest" using r0 by simp
  have ok: "r_ok ?r" using Cons.prems(1) by simp
  show ?case
    using Cons.IH [OF ok r1, of "od + wire_delta ?d" "acc @ [last acc + (od + wire_delta ?d)]"]
    by (simp add: step Let_def)
qed

lemma of_nat_u32_eq: "n < 2 ^ 32 \<Longrightarrow> unat (of_nat n :: u32) = n"
  by (simp add: unat_of_nat)

lemma of_nat_u32_zero: "n < 2 ^ 32 \<Longrightarrow> ((of_nat n :: u32) = 0) = (n = 0)"
proof
  assume "n < 2 ^ 32" "(of_nat n :: u32) = 0"
  then show "n = 0" using of_nat_u32_eq [of n] by simp
qed simp

lemma of_nat_u32_one: "n < 2 ^ 32 \<Longrightarrow> ((of_nat n :: u32) = 1) = (n = 1)"
proof
  assume "n < 2 ^ 32" "(of_nat n :: u32) = 1"
  then show "n = 1" using of_nat_u32_eq [of n] by simp
qed simp

lemma take_bit64 [simp]: "take_bit 64 (v :: u64) = v"
  by (simp add: take_bit_word_eq_self)

lemma decode_timestamps_code:
  assumes "r_ok r" "r_rest r = ts_code ts @ rest" "length ts < 2 ^ 32"
  shows "decode_timestamps r (of_nat (length ts)) = Inr (replay_timestamps ts)"
proof (cases ts)
  case Nil
  then show ?thesis by (simp add: decode_timestamps_def replay_timestamps_def)
next
  case (Cons t0 ts1)
  note c0 = Cons
  have nz: "(of_nat (length ts) :: u32) \<noteq> 0"
    using of_nat_u32_zero [OF assms(3)] c0 by simp
  show ?thesis
  proof (cases ts1)
    case Nil
    have r0: "r_rest r = word_bits 64 t0 @ rest" using assms(2) c0 Nil by (simp add: ts_code_def)
    have one: "(of_nat (length ts) :: u32) = 1" using c0 Nil by simp
    have rd: "br_read r (int 64) = Inr (t0, r_adv 64 r)"
      using br_read_code [OF assms(1) r0] by simp
    show ?thesis
      using rd one by (simp add: decode_timestamps_def replay_timestamps_def c0 Nil)
  next
    case (Cons t1 rest1)
    let ?fd = "t1 - t0"
    let ?r1 = "r_adv 64 r"
    let ?r2 = "r_adv (length (varlen_code ?fd)) ?r1"
    have r0: "r_rest r = word_bits 64 t0 @ (varlen_code ?fd @ dod_codes t1 ?fd rest1 @ rest)"
      using assms(2) c0 Cons by (simp add: ts_code_def)
    have n1: "(of_nat (length ts) :: u32) \<noteq> 1"
      using of_nat_u32_one [OF assms(3)] c0 Cons by simp
    have un: "unat (of_nat (length ts) :: u32) - 2 = length rest1"
      using of_nat_u32_eq [OF assms(3)] c0 Cons by simp
    have rd: "br_read r (int 64) = Inr (t0, ?r1)"
      using br_read_code [OF assms(1) r0] by simp
    have r1: "r_rest ?r1 = varlen_code ?fd @ (dod_codes t1 ?fd rest1 @ rest)" using r0 by simp
    have ok1: "r_ok ?r1" using assms(1) by simp
    have fd: "decode_first_delta ?r1 = Inr (wire_delta ?fd, ?r2)"
      by (rule decode_first_delta_code [OF ok1 r1])
    have r2: "r_rest ?r2 = dod_codes t1 ?fd rest1 @ rest" using r1 by (simp del: drop_drop)
    have ok2: "r_ok ?r2" using assms(1) by simp
    have lp: "decode_timestamps_loop (length rest1) ?r2 (wire_delta ?fd) [t0, t0 + wire_delta ?fd]
                = Inr ([t0, t0 + wire_delta ?fd]
                       @ replay_loop t1 ?fd (last [t0, t0 + wire_delta ?fd]) (wire_delta ?fd) rest1)"
      by (rule decode_timestamps_loop_code [OF ok2 r2])
    show ?thesis
      unfolding decode_timestamps_def
      using nz n1 un rd fd lp
      by (simp add: replay_timestamps_def c0 Cons Let_def)
  qed
qed

lemma decode_value_step_code:
  assumes "r_ok r" "r_rest r = xor_code p v @ rest"
  shows "decode_value_step (r, p, 0, 0)
           = Inr (v, (r_adv (length (xor_code p v)) r, v, 0, 0))"
proof (cases "v = p")
  case True
  then have r0: "r_rest r = False # rest" using assms(2) by (simp add: xor_code_def)
  show ?thesis
    using True
    by (simp add: decode_value_step_def br_read_bit_rest [OF assms(1) r0] xor_code_def
        bits_to_float_def)
next
  case False
  then have c: "xor_code p v = [True, False] @ word_bits 64 (v XOR p)" by (simp add: xor_code_def)
  have r0: "r_rest r = True # False # word_bits 64 (v XOR p) @ rest" using assms(2) c by simp
  let ?r2 = "r_adv 1 (r_adv 1 r)"
  have r2: "r_rest ?r2 = word_bits 64 (v XOR p) @ rest" using r0 by simp
  have rd: "br_read ?r2 (int 64) = Inr (v XOR p, r_adv 64 ?r2)"
    using br_read_code [of ?r2 64 "v XOR p" rest] assms(1) r2 by simp
  have x: "p XOR (v XOR p) = v"
    by (simp add: xor.commute xor.left_commute)
  show ?thesis
    using assms(1) r0 rd
    by (simp add: decode_value_step_def br_read_bit_hd c bits_to_float_def x r_adv_merge)
qed

lemma decode_values_loop_code:
  "r_ok r \<Longrightarrow> r_rest r = xor_codes p vs @ rest \<Longrightarrow>
   decode_values_loop (length vs) (r, p, 0, 0) acc = Inr (acc @ vs)"
proof (induction vs arbitrary: r p acc)
  case Nil
  then show ?case by simp
next
  case (Cons v vs)
  let ?r = "r_adv (length (xor_code p v)) r"
  have r0: "r_rest r = xor_code p v @ (xor_codes v vs @ rest)" using Cons.prems(2) by simp
  have step: "decode_value_step (r, p, 0, 0) = Inr (v, (?r, v, 0, 0))"
    by (rule decode_value_step_code [OF Cons.prems(1) r0])
  have r1: "r_rest ?r = xor_codes v vs @ rest" using r0 by simp
  have ok: "r_ok ?r" using Cons.prems(1) by simp
  show ?case using Cons.IH [OF ok r1, of "acc @ [v]"] by (simp add: step)
qed

lemma decode_values_code:
  assumes "r_ok r" "r_rest r = val_code vs @ rest" "length vs < 2 ^ 32"
  shows "decode_values r (of_nat (length vs)) = Inr vs"
proof (cases vs)
  case Nil
  then show ?thesis by (simp add: decode_values_def)
next
  case (Cons v0 vs1)
  have nz: "(of_nat (length vs) :: u32) \<noteq> 0"
    using of_nat_u32_zero [OF assms(3)] Cons by simp
  have one: "((of_nat (length vs) :: u32) = 1) = (vs1 = [])"
    using of_nat_u32_one [OF assms(3)] Cons by simp
  have un: "unat (of_nat (length vs) :: u32) - 1 = length vs1"
    using of_nat_u32_eq [OF assms(3)] Cons by simp
  have r0: "r_rest r = word_bits 64 v0 @ (xor_codes v0 vs1 @ rest)"
    using assms(2) Cons by (simp add: val_code_def)
  have rd: "br_read r (int 64) = Inr (v0, r_adv 64 r)"
    using br_read_code [OF assms(1) r0] by simp
  have r1: "r_rest (r_adv 64 r) = xor_codes v0 vs1 @ rest" using r0 by simp
  have ok: "r_ok (r_adv 64 r)" using assms(1) by simp
  have lp: "decode_values_loop (length vs1) (r_adv 64 r, v0, 0, 0) [v0] = Inr ([v0] @ vs1)"
    by (rule decode_values_loop_code [OF ok r1])
  show ?thesis
    unfolding decode_values_def
    using nz one un rd lp by (auto simp: Cons bits_to_float_def)
qed

section \<open>The packed payload\<close>

lemma pad_aligned: "((t :: nat) + (8 - t mod 8) mod 8) mod 8 = 0"
proof (cases "t mod 8 = 0")
  case True
  then show ?thesis by simp
next
  case False
  define r where "r = t mod 8"
  have r: "0 < r" "r < 8" using False by (simp_all add: r_def)
  have a: "(8 - r) mod 8 = 8 - r" using r by simp
  have "(t + (8 - r)) mod 8 = (t mod 8 + (8 - r)) mod 8"
    by (simp only: mod_add_left_eq)
  also have "\<dots> = (r + (8 - r)) mod 8" by (simp only: r_def)
  also have "\<dots> = 0" using r by simp
  finally have "(t + (8 - r)) mod 8 = 0" .
  with a show ?thesis unfolding r_def by simp
qed

lemma pack_streams_bits:
  assumes "bw_inv (ts_writer tsr)" "bw_inv (val_writer vr)"
  shows "\<exists>k<8. bytes_bits (bw_to_bytes (pack_streams n tsr vr))
           = inner_header_bits (of_nat n) (first_timestamp tsr) (first_value vr)
               (ucast (first_delta tsr)) (of_nat (bw_total_bits (ts_writer tsr)))
               (of_nat (bw_total_bits (val_writer vr)))
             @ bw_bits (ts_writer tsr) @ bw_bits (val_writer vr) @ replicate k False"
proof -
  let ?ih = "build_inner_header (of_nat n) (first_timestamp tsr) (first_value vr)
               (ucast (first_delta tsr)) (of_nat (bw_total_bits (ts_writer tsr)))
               (of_nat (bw_total_bits (val_writer vr)))"
  define p1 where "p1 = foldl (\<lambda>p b. bw_write p (ucast b) 8) BitWriter_new ?ih"
  define p2 where
    "p2 = append_substream p1 (bw_to_bytes (ts_writer tsr)) (bw_total_bits (ts_writer tsr))"
  define p3 where
    "p3 = append_substream p2 (bw_to_bytes (val_writer vr)) (bw_total_bits (val_writer vr))"
  define pad where "pad = (8 - bw_total_bits p3 mod 8) mod 8"
  have p1: "bw_bits p1 = bytes_bits ?ih" "bw_inv p1"
    using write_bytes_bits [of BitWriter_new ?ih] by (simp_all add: p1_def)
  have p2: "bw_bits p2 = bw_bits p1 @ bw_bits (ts_writer tsr)" "bw_inv p2"
    using append_substream_bits [OF p1(2) assms(1)] by (simp_all add: p2_def)
  have p3: "bw_bits p3 = bw_bits p2 @ bw_bits (val_writer vr)" "bw_inv p3"
    using append_substream_bits [OF p2(2) assms(2)] by (simp_all add: p3_def)
  have ps: "pack_streams n tsr vr = (if pad > 0 then bw_write p3 0 (int pad) else p3)"
    by (simp add: pack_streams_def Let_def p1_def p2_def p3_def pad_def float_to_bits_def)
  have pad8: "pad < 8" by (simp add: pad_def)
  have z: "word_bits pad (0 :: u64) = replicate pad False"
    by (rule word_bits_zero) simp
  have bits: "bw_bits (pack_streams n tsr vr) = bw_bits p3 @ replicate pad False"
    using pad8 p3(2) by (simp add: ps bw_write_bits z)
  have inv: "bw_inv (pack_streams n tsr vr)"
    using p3(2) by (simp add: ps bw_write_inv)
  have "length (bw_bits (pack_streams n tsr vr)) mod 8 = 0"
    using pad_aligned [of "bw_total_bits p3"]
    by (simp add: bits length_bw_bits [OF p3(2)] pad_def)
  from bw_to_bytes_aligned [OF inv this]
  show ?thesis
    using pad8
    by (intro exI [of _ pad]) (simp add: bits p3(1) p2(1) p1(1) build_inner_header_bits)
qed

lemma reader_new_simps [simp]:
  "r_ok (BitReader_new d (length d * 8))"
  "r_rest (BitReader_new d (length d * 8)) = bytes_bits d"
  by (simp_all add: r_ok_def r_rest_def r_bits_def BitReader_new_def)

lemma br_read_signed_ok:
  "r_ok r \<Longrightarrow> nat n \<le> length (r_rest r) \<Longrightarrow>
   \<exists>x. br_read_signed r n = Inr (x, r_adv (nat n) r)"
  by (simp add: br_read_signed_def br_read_ok)

section \<open>The parse of the outer header\<close>

lemma br_read_signed_closed:
  "r_ok r \<Longrightarrow> nat n \<le> length (r_rest r) \<Longrightarrow>
   br_read_signed r n
     = Inr (sign_extend n (bl_word (take (nat n) (r_rest r))), r_adv (nat n) r)"
  by (simp add: br_read_signed_def br_read_ok sign_extend_def)

lemma hdr_read:
  "k + nat m \<le> 8 * length data \<Longrightarrow>
   br_read (r_adv k (BitReader_new data (length data * 8))) m
     = Inr (header_field data k (nat m), r_adv (k + nat m) (BitReader_new data (length data * 8)))"
  by (simp add: br_read_ok header_field_def r_adv_merge)

lemma hdr_read0:
  "nat m \<le> 8 * length data \<Longrightarrow>
   br_read (BitReader_new data (length data * 8)) m
     = Inr (header_field data 0 (nat m), r_adv (nat m) (BitReader_new data (length data * 8)))"
  using hdr_read [of 0 m data] by simp

lemma hdr_read_signed:
  "k + nat m \<le> 8 * length data \<Longrightarrow>
   br_read_signed (r_adv k (BitReader_new data (length data * 8))) m
     = Inr (sign_extend m (header_field data k (nat m)),
            r_adv (k + nat m) (BitReader_new data (length data * 8)))"
  by (simp add: br_read_signed_closed header_field_def r_adv_merge)

lemma decode_header_closed:
  assumes "80 \<le> length data"
  shows "nif_gorilla_decode env data = decode_header_spec env data"
proof -
  have ne: "data \<noteq> []" using assms by auto
  show ?thesis
    unfolding nif_gorilla_decode_def decode_header_spec_def Let_def
    using assms ne
    by (simp add: hdr_read hdr_read0 hdr_read_signed cong: if_cong)
qed

section \<open>Decoding a packed payload\<close>

lemma header_field_word_bits:
  assumes "bytes_bits d = pre @ word_bits n (v :: 'a::len word) @ post" "length pre = k"
  shows "header_field d k n = take_bit n (ucast v)"
  using assms by (simp add: header_field_def bl_word_word_bits)

lemma ucast_take_bit32 [simp]: "(ucast (take_bit 32 (ucast (c :: u32) :: u64)) :: u32) = c"
  by (rule bit_eqI) (auto simp: bit_simps dest: bit_imp_le_length)

lemma decode_payload_code:
  assumes bits: "bytes_bits packed
                   = inner_header_bits c ft fv fd tsl vsl @ ts_code ts @ val_code vs @ pad"
    and tsl: "tsl = of_nat (length (ts_code ts))" "length (ts_code ts) < 2 ^ 32"
    and len: "length ts = length vs" "ts \<noteq> []" "length ts < 2 ^ 32"
  shows "decode_payload env packed (length packed) (of_nat (length ts)) flags scale
           = Inr (zip (replay_timestamps ts) (vm_postprocess env flags scale vs))"
proof -
  let ?r = "BitReader_new packed (length packed * 8)"
  have l8: "8 * length packed = 256 + length (ts_code ts) + length (val_code vs) + length pad"
    using arg_cong [OF bits, of length] by simp
  then have l32: "\<not> length packed < 32" by linarith
  have nz: "(of_nat (length ts) :: u32) \<noteq> 0"
    using of_nat_u32_zero [OF len(3)] len(2) by simp
  have f192: "header_field packed 192 32 = take_bit 32 (ucast tsl)"
    by (rule header_field_word_bits
        [of _ "word_bits 32 c @ word_bits 64 ft @ word_bits 64 fv @ word_bits 32 fd" _ _
            "word_bits 32 vsl @ ts_code ts @ val_code vs @ pad"])
       (simp_all add: bits inner_header_bits_def)
  have un: "unat (ucast (header_field packed 192 32) :: u32) = length (ts_code ts)"
    by (simp add: f192 tsl(1) of_nat_u32_eq [OF tsl(2)])
  have sk1: "skip_bits 256 ?r = Inr (r_adv 256 ?r)"
    using l8 by (intro skip_bits_ok) simp_all
  have rt: "r_rest (r_adv 256 ?r) = ts_code ts @ (val_code vs @ pad)"
    by (simp add: bits)
  have dt: "decode_timestamps (r_adv 256 ?r) (of_nat (length ts)) = Inr (replay_timestamps ts)"
    by (rule decode_timestamps_code [OF _ rt len(3)]) simp
  have sk2: "skip_bits (256 + length (ts_code ts)) ?r = Inr (r_adv (256 + length (ts_code ts)) ?r)"
    using l8 by (intro skip_bits_ok) simp_all
  have rv: "r_rest (r_adv (256 + length (ts_code ts)) ?r) = val_code vs @ pad"
    by (simp add: bits)
  have "decode_values (r_adv (256 + length (ts_code ts)) ?r) (of_nat (length vs)) = Inr vs"
    using len by (intro decode_values_code [OF _ rv]) simp_all
  then have dv: "decode_values (r_adv (256 + length (ts_code ts)) ?r) (of_nat (length ts)) = Inr vs"
    by (simp add: len(1))
  show ?thesis
    unfolding decode_payload_def Let_def
    using l8 l32 nz
    by (simp add: hdr_read hdr_read0 hdr_read_signed un sk1 dt sk2 dv)
qed

lemma take_bit16_ucast: "take_bit 16 (ucast (v :: 16 word) :: u64) = ucast v"
  by (rule bit_eqI) (auto simp: bit_simps dest: bit_imp_le_length)

lemma take_bit32_ucast: "take_bit 32 (ucast (v :: 32 word) :: u64) = ucast v"
  by (rule bit_eqI) (auto simp: bit_simps dest: bit_imp_le_length)

lemma ucast_ucast32 [simp]: "(ucast (ucast (c :: u32) :: u64) :: u32) = c"
  by (rule bit_eqI) (auto simp: bit_simps dest: bit_imp_le_length)

lemma decode_header_layout:
  assumes hb: "bytes_bits hdr = outer_header_bits c cs crc ft fd fv tb vb tot ratio ctime fl sc v2"
    and cs: "cs = of_nat (length packed)" "length packed < 2 ^ 32"
  shows "nif_gorilla_decode env (hdr @ packed)
           = decode_payload env packed (length packed) c fl (if v2 then sc else 0)"
proof -
  have lh: "length hdr = (if v2 then 84 else 80)"
    using arg_cong [OF hb, of length] by (simp split: if_splits)
  then have l80: "80 \<le> length (hdr @ packed)" by simp
  have bb: "bytes_bits (hdr @ packed)
              = outer_header_bits c cs crc ft fd fv tb vb tot ratio ctime fl sc v2
                @ bytes_bits packed"
    by (simp add: hb)
  have f0: "header_field (hdr @ packed) 0 64 = GORILLA_MAGIC"
    by (simp add: header_field_def hb lh outer_header_bits_def bl_word_word_bits)
  have f64: "header_field (hdr @ packed) 64 16 = ucast GORILLA_VERSION"
    by (simp add: header_field_def hb lh outer_header_bits_def bl_word_word_bits take_bit16_ucast)
  have f80: "header_field (hdr @ packed) 80 16 = (if v2 then 84 else 80)"
    by (simp add: header_field_def hb lh outer_header_bits_def bl_word_word_bits take_bit16_ucast)
  have f96: "header_field (hdr @ packed) 96 32 = ucast c"
    by (simp add: header_field_def hb lh outer_header_bits_def bl_word_word_bits take_bit32_ucast)
  have f128: "header_field (hdr @ packed) 128 32 = ucast cs"
    by (simp add: header_field_def hb lh outer_header_bits_def bl_word_word_bits take_bit32_ucast)
  have f608: "header_field (hdr @ packed) 608 32 = ucast fl"
    by (simp add: header_field_def hb lh outer_header_bits_def bl_word_word_bits take_bit32_ucast)
  have f640: "v2 \<Longrightarrow> header_field (hdr @ packed) 640 32 = ucast sc"
    by (simp add: header_field_def hb lh outer_header_bits_def bl_word_word_bits take_bit32_ucast)
  have ucs: "unat cs = length packed"
    by (simp add: cs(1) of_nat_u32_eq [OF cs(2)])
  show ?thesis
    unfolding decode_header_closed [OF l80] decode_header_spec_def Let_def
    using lh f640
    by (simp add: f0 f64 f80 f96 f128 f608 ucs)
qed

section \<open>Decoding what the encoder wrote\<close>

lemma length_varlen_code: "length (varlen_code d) \<le> 36"
  by (simp add: varlen_code_def)

lemma length_dod_codes: "length (dod_codes p pd ts) \<le> 36 * length ts"
proof (induction ts arbitrary: p pd)
  case Nil
  then show ?case by simp
next
  case (Cons t ts)
  from Cons [of t "t - p"] length_varlen_code [of "t - p - pd"] show ?case by simp
qed

lemma length_ts_code: "length (ts_code ts) \<le> 64 + 36 * length ts"
proof (cases ts)
  case Nil
  then show ?thesis by (simp add: ts_code_def)
next
  case (Cons t0 ts1)
  show ?thesis
  proof (cases ts1)
    case Nil
    then show ?thesis by (simp add: ts_code_def Cons)
  next
    case c2: (Cons t1 rest)
    from length_dod_codes [of t1 "t1 - t0" rest] length_varlen_code [of "t1 - t0"]
    show ?thesis by (simp add: ts_code_def Cons c2)
  qed
qed

lemma length_xor_codes: "length (xor_codes p vs) \<le> 66 * length vs"
proof (induction vs arbitrary: p)
  case Nil
  then show ?case by simp
next
  case (Cons v vs)
  from Cons [of v] show ?case by (auto simp: xor_code_def)
qed

lemma length_val_code: "length (val_code vs) \<le> 64 + 66 * length vs"
proof (cases vs)
  case Nil
  then show ?thesis by (simp add: val_code_def)
next
  case (Cons v0 rest)
  from length_xor_codes [of v0 rest] show ?thesis by (simp add: val_code_def Cons)
qed

lemma length_delta_encode_counter [simp]:
  "length (delta_encode_counter env vs) = length vs"
  by (cases vs) (simp_all add: delta_encode_counter_def)

lemma length_scale_values [simp]: "length (scale_values env vs n) = length vs"
  by (simp add: scale_values_def Let_def)

lemma vm_preprocess_length:
  "vm_preprocess env vm ic sn vs = (flags, scale, vals) \<Longrightarrow> length vals = length vs"
  by (auto simp: vm_preprocess_def Let_def split: if_splits)

lemma vm_preprocess_off:
  "vm_preprocess env False ic sn vs = (0, 0, vs)"
  by (simp add: vm_preprocess_def)

lemma vm_postprocess_off [simp]: "vm_postprocess env 0 sc vs = vs"
  by (simp add: vm_postprocess_def)

lemma encode_layout:
  assumes ne: "data \<noteq> []"
    and pp: "vm_preprocess env (opts_vm opts) (opts_counter opts) (opts_scale_n opts)
               (map snd data) = (flags, scale, vals)"
  obtains hdr packed k fd tb vb tot ratio where
    "nif_gorilla_encode env data opts = hdr @ packed"
    "bytes_bits hdr
       = outer_header_bits (of_nat (length data)) (of_nat (length packed)) (crc32 packed)
           (first_timestamp (encode_timestamps (map fst data))) fd
           (first_value (encode_values vals)) tb vb tot ratio (clock env) flags scale
           (opts_vm opts \<or> opts_counter opts)"
    "bytes_bits packed
       = inner_header_bits (of_nat (length data))
           (first_timestamp (encode_timestamps (map fst data)))
           (first_value (encode_values vals)) fd
           (of_nat (length (ts_code (map fst data)))) vb
         @ ts_code (map fst data) @ val_code vals @ replicate k False"
    "k < 8"
proof -
  let ?ts = "map fst data"
  let ?tsr = "encode_timestamps ?ts"
  let ?vr = "encode_values vals"
  let ?pk = "pack_streams (length ?ts) ?tsr ?vr"
  let ?packed = "bw_to_bytes ?pk"
  let ?v2 = "opts_vm opts \<or> (opts_counter opts \<and> scale \<ge> 0)"
  have tsb: "bw_bits (ts_writer ?tsr) = ts_code ?ts" "bw_inv (ts_writer ?tsr)"
    using encode_timestamps_bits [of ?ts] by simp_all
  have vb: "bw_bits (val_writer ?vr) = val_code vals" "bw_inv (val_writer ?vr)"
    using encode_values_bits [of vals] by simp_all
  have tl: "bw_total_bits (ts_writer ?tsr) = length (ts_code ?ts)"
    using length_bw_bits [OF tsb(2)] tsb(1) by simp
  obtain k where k: "k < 8"
    and pb: "bytes_bits ?packed
               = inner_header_bits (of_nat (length data)) (first_timestamp ?tsr) (first_value ?vr)
                   (ucast (first_delta ?tsr)) (of_nat (length (ts_code ?ts)))
                   (of_nat (bw_total_bits (val_writer ?vr)))
                 @ ts_code ?ts @ val_code vals @ replicate k False"
    using pack_streams_bits [OF tsb(2) vb(2), of "length ?ts"] by (auto simp: tsb(1) vb(1) tl)
  have v2: "?v2 = (opts_vm opts \<or> opts_counter opts)" by simp
  have enc: "nif_gorilla_encode env data opts
      = build_outer_header (of_nat (length data)) (of_nat (length ?packed)) (crc32 ?packed)
          (first_timestamp ?tsr) (ucast (first_delta ?tsr)) (float_to_bits (first_value ?vr))
          (of_nat (bw_total_bits (ts_writer ?tsr))) (of_nat (bw_total_bits (val_writer ?vr)))
          (of_nat (bw_total_bits ?pk))
          (if (of_nat (length data) :: u32) * 16 > 0
           then fp_div env (fp_of_u32 env (of_nat (length ?packed)))
                  (fp_of_u32 env (of_nat (length data) * 16))
           else 0)
          (clock env) flags scale (opts_vm opts \<or> opts_counter opts)
        @ ?packed"
    using ne pp
    by (simp add: nif_gorilla_encode_def Let_def opts_vm_def opts_counter_def opts_scale_n_def)
  show ?thesis
    by (rule that [OF enc _ pb k])
       (simp add: build_outer_header_bits float_to_bits_def tl)
qed

lemma small_sizes_fit:
  assumes "length ts < 2 ^ 26" "length vs = length ts"
  shows "sizes_fit ts vs"
  using length_ts_code [of ts] length_val_code [of vs] assms
  by (simp add: sizes_fit_def)

lemma encode_decode_general:
  assumes ne: "data \<noteq> []" and sf: "sizes_fit (map fst data) vals"
    and pp: "vm_preprocess env (opts_vm opts) (opts_counter opts) (opts_scale_n opts)
               (map snd data) = (flags, scale, vals)"
  shows "nif_gorilla_decode env (nif_gorilla_encode env data opts)
           = Inr (zip (replay_timestamps (map fst data)) (vm_postprocess env flags scale vals))"
proof -
  let ?ts = "map fst data"
  let ?v2 = "opts_vm opts \<or> opts_counter opts"
  have lv: "length vals = length data" using vm_preprocess_length [OF pp] by simp
  from encode_layout [OF ne pp] obtain hdr packed k fd tb vb tot ratio where
    enc: "nif_gorilla_encode env data opts = hdr @ packed"
    and hb: "bytes_bits hdr
       = outer_header_bits (of_nat (length data)) (of_nat (length packed)) (crc32 packed)
           (first_timestamp (encode_timestamps ?ts)) fd
           (first_value (encode_values vals)) tb vb tot ratio (clock env) flags scale ?v2"
    and pb: "bytes_bits packed
       = inner_header_bits (of_nat (length data)) (first_timestamp (encode_timestamps ?ts))
           (first_value (encode_values vals)) fd (of_nat (length (ts_code ?ts))) vb
         @ ts_code ?ts @ val_code vals @ replicate k False"
    and k: "k < 8"
    by metis
  have small: "length data < 2 ^ 32" and tsl: "length (ts_code ?ts) < 2 ^ 32"
    and tot: "256 + length (ts_code ?ts) + length (val_code vals) \<le> 8 * (2 ^ 32 - 1)"
    using sf by (simp_all add: sizes_fit_def)
  have "8 * length packed = 256 + length (ts_code ?ts) + length (val_code vals) + k"
    using arg_cong [OF pb, of length] by simp
  then have pl: "length packed < 2 ^ 32"
    using k tot by simp
  have sc: "(if ?v2 then scale else 0) = scale"
    using pp by (auto simp: vm_preprocess_def)
  have "nif_gorilla_decode env (nif_gorilla_encode env data opts)
          = decode_payload env packed (length packed) (of_nat (length data)) flags
              (if ?v2 then scale else 0)"
    unfolding enc
    by (rule decode_header_layout [OF hb _ pl]) simp
  also have "\<dots> = Inr (zip (replay_timestamps ?ts) (vm_postprocess env flags scale vals))"
    unfolding sc
    using ne small lv decode_payload_code [OF pb _ tsl, of env flags scale]
    by simp
  finally show ?thesis .
qed

lemma encode_decode_small:
  assumes ne: "data \<noteq> []" and small: "length data < 2 ^ 26"
    and pp: "vm_preprocess env (opts_vm opts) (opts_counter opts) (opts_scale_n opts)
               (map snd data) = (flags, scale, vals)"
  shows "nif_gorilla_decode env (nif_gorilla_encode env data opts)
           = Inr (zip (replay_timestamps (map fst data)) (vm_postprocess env flags scale vals))"
proof -
  have "length vals = length (map fst data)" using vm_preprocess_length [OF pp] by simp
  then have "sizes_fit (map fst data) vals" using small by (intro small_sizes_fit) simp_all
  then show ?thesis by (rule encode_decode_general [OF ne _ pp])
qed

section \<open>Round trip\<close>

lemma sint_stb:
  fixes w :: "64 word"
  assumes "n < 64"
  shows "sint (signed_take_bit n w) = signed_take_bit n (sint w)"
proof (cases "n = 63")
  case True
  then show ?thesis by (intro bit_eqI) (auto simp: bit_simps min_def)
next
  case False
  with assms have "n < 63" by simp
  then show ?thesis by (intro bit_eqI) (auto simp: bit_simps min_def)
qed

lemma stb_id:
  fixes w :: "64 word"
  assumes "- (2 ^ n) \<le> sint w" "sint w < 2 ^ n" "n < 64"
  shows "signed_take_bit n w = w"
proof (rule signed_word_eqI [where ?'a = int])
  show "sint (signed_take_bit n w) = sint w"
    using assms by (simp add: sint_stb signed_take_bit_int_eq_self)
qed

lemma wire_delta_id: "delta_fits d \<Longrightarrow> wire_delta d = d"
  unfolding delta_fits_def wire_delta_def
  by (auto intro!: stb_id)

lemma replay_loop_id: "dods_fit p pd ts \<Longrightarrow> replay_loop p pd p pd ts = ts"
  by (induction ts arbitrary: p pd) (simp_all add: Let_def wire_delta_id)

lemma replay_timestamps_id: "timestamps_fit ts \<Longrightarrow> replay_timestamps ts = ts"
  by (auto simp: timestamps_fit_def replay_timestamps_def Let_def wire_delta_id replay_loop_id
      split: list.splits)

lemma decode_Nil: "nif_gorilla_decode env [] = Inr []"
  by (simp add: nif_gorilla_decode_def)

lemma encode_Nil: "nif_gorilla_encode env [] opts = []"
  by (simp add: nif_gorilla_encode_def)

lemma encode_decode_plain:
  assumes "sizes_fit (map fst data) (map snd data)" "\<not> opts_vm opts"
  shows "nif_gorilla_decode env (nif_gorilla_encode env data opts)
           = Inr (zip (replay_timestamps (map fst data)) (map snd data))"
proof (cases "data = []")
  case True
  then show ?thesis by (simp add: encode_Nil decode_Nil replay_timestamps_def)
next
  case False
  from encode_decode_general [OF False assms(1), of env opts 0 0] assms(2)
  show ?thesis by (simp add: vm_preprocess_off)
qed

lemma small_samples_fit:
  "length data < 2 ^ 26 \<Longrightarrow> sizes_fit (map fst data) (map snd data)"
  by (rule small_sizes_fit) simp_all

text \<open>
  C1, within the reach of the wire format. For every list of samples whose sizes the 32-bit
  header fields can hold (the sample count, the bit length of the timestamp sub-stream and
  the byte length of the packed payload; every list of fewer than \<open>2^26\<close> samples is one)
  and whose first delta and deltas of deltas, taken modulo \<open>2^64\<close> as signed numbers, all
  lie in the range from \<open>-2^31\<close> to \<open>2^31 - 1\<close> and are none of 64, 256 and 2048,
  decoding the buffer that encoding produces with preprocessing off returns exactly the
  list: the same samples in the same order, each timestamp equal as a 64-bit integer and
  each value equal as a 64-bit pattern.
\<close>

theorem roundtrip_preprocessing_off:
  assumes "sizes_fit (map fst data) (map snd data)" "\<not> opts_vm opts"
    "timestamps_fit (map fst data)"
  shows "nif_gorilla_decode env (nif_gorilla_encode env data opts) = Inr data"
  using encode_decode_plain [OF assms(1,2)] replay_timestamps_id [OF assms(3)]
  by (simp add: zip_map_fst_snd)

theorem roundtrip_preprocessing_off_witness:
  "sizes_fit (map fst example_samples) (map snd example_samples) \<and> \<not> opts_vm default_opts \<and>
   timestamps_fit (map fst example_samples) \<and>
   nif_gorilla_decode example_env (nif_gorilla_encode example_env example_samples default_opts)
     = Inr example_samples"
proof -
  have h1: "sizes_fit (map fst example_samples) (map snd example_samples)"
    by (rule small_samples_fit) (simp add: example_samples_def)
  have h2: "\<not> opts_vm default_opts" by (simp add: opts_vm_def default_opts_def)
  have h3: "timestamps_fit (map fst example_samples)"
    by (simp add: example_samples_def timestamps_fit_def delta_fits_def)
  from roundtrip_preprocessing_off [OF h1 h2 h3, of example_env] h1 h2 h3
  show ?thesis by blast
qed

text \<open>
  C1 as stated, for every list, fails: a first delta of \<open>2^32\<close> is cut to the 32 payload
  bits of the widest bucket, and the second timestamp comes back as 0.
\<close>

theorem roundtrip_counterexample:
  "nif_gorilla_decode example_env
     (nif_gorilla_encode example_env [(0, 0), (4294967296, 0)] default_opts)
     = Inr [(0, 0), (0, 0)] \<and>
   nif_gorilla_decode example_env
     (nif_gorilla_encode example_env [(0, 0), (4294967296, 0)] default_opts)
     \<noteq> Inr [(0, 0), (4294967296, 0)]"
proof -
  have h1: "sizes_fit (map fst [(0 :: i64, 0 :: double_bits), (4294967296, 0)])
              (map snd [(0 :: i64, 0 :: double_bits), (4294967296, 0)])"
    by (rule small_samples_fit) simp
  have h2: "\<not> opts_vm default_opts" by (simp add: opts_vm_def default_opts_def)
  have "replay_timestamps (map fst [(0 :: i64, 0 :: double_bits), (4294967296, 0)]) = [0, 0]"
    by (simp add: replay_timestamps_def wire_delta_def)
  with encode_decode_plain [OF h1 h2, of example_env] show ?thesis by simp
qed

section \<open>Buckets, the empty input, the value stream\<close>

lemma reachable_inv: "reachable w \<Longrightarrow> bw_inv w"
  unfolding bw_inv_def by (rule reachable_bits_range)

lemma word_bits_7: "word_bits 7 v = [bit v 6, bit v 5, bit v 4, bit v 3, bit v 2, bit v 1, bit v 0]"
  by (simp add: numeral_eq_Suc)

lemma word_bits_9:
  "word_bits 9 v = [bit v 8, bit v 7, bit v 6, bit v 5, bit v 4, bit v 3, bit v 2, bit v 1, bit v 0]"
  by (simp add: numeral_eq_Suc)

lemma varlen_code_64_65:
  "varlen_code 64 = [True, False] @ [True, False, False, False, False, False, False]"
  "varlen_code 65 = [True, True, False] @ [False, False, True, False, False, False, False, False, True]"
  by (simp_all add: varlen_code_def word_bits_7 word_bits_9)

text \<open>
  C2. The variable-length timestamp encoder selects its buckets by the thresholds of the
  specification's table: on any writer the program can hold, \<^verbatim>\<open>encode_first_delta\<close> and
  \<^verbatim>\<open>encode_delta_of_delta\<close> append exactly the bits of \<open>varlen_code d\<close>: the bit 0 for
  \<open>d = 0\<close>; 10 and 7 payload bits for \<open>-63 \<le> d \<le> 64\<close>; 110 and 9 bits for
  \<open>-255 \<le> d \<le> 256\<close>; 1110 and 12 bits for \<open>-2047 \<le> d \<le> 2048\<close>; 1111 and 32 bits
  otherwise. A delta of 64 is coded in the 7-bit bucket, a delta of 65 in the 9-bit bucket.
\<close>

theorem varlen_bucket_thresholds:
  "reachable w \<Longrightarrow>
   bw_bits (encode_first_delta w d) = bw_bits w @ varlen_code d \<and>
   bw_bits (encode_delta_of_delta w d) = bw_bits w @ varlen_code d \<and>
   varlen_code 64 = [True, False] @ [True, False, False, False, False, False, False] \<and>
   varlen_code 65 = [True, True, False] @ [False, False, True, False, False, False, False, False, True]"
  by (simp add: encode_first_delta_bits encode_delta_of_delta_bits reachable_inv
      varlen_code_64_65)

theorem varlen_bucket_thresholds_witness:
  "reachable BitWriter_new \<and>
   bw_bits (encode_first_delta BitWriter_new 64) = bw_bits BitWriter_new @ varlen_code 64 \<and>
   bw_bits (encode_delta_of_delta BitWriter_new 64) = bw_bits BitWriter_new @ varlen_code 64 \<and>
   varlen_code 64 = [True, False] @ [True, False, False, False, False, False, False] \<and>
   varlen_code 65 = [True, True, False] @ [False, False, True, False, False, False, False, False, True]"
  using varlen_bucket_thresholds [OF reach_new, of 64] reach_new by blast

text \<open>
  C5. Encoding the empty sample list, with any options, produces the zero-length buffer,
  with no header; decoding the zero-length buffer produces the empty sample list.
\<close>

theorem empty_input_empty_buffer:
  "nif_gorilla_encode env [] opts = [] \<and> nif_gorilla_decode env [] = Inr []"
  by (simp add: encode_Nil decode_Nil)

theorem empty_input_empty_buffer_witness:
  "nif_gorilla_encode example_env [] default_opts = [] \<and>
   nif_gorilla_decode example_env [] = Inr []"
  using empty_input_empty_buffer [of example_env default_opts] by blast

lemma encode_values_loop_window:
  "snd (snd (encode_values_loop (w, p, 0, 0) vs)) = (0, 0)"
  by (induction vs arbitrary: w p) (simp_all add: encode_value_step_zero_window)

text \<open>
  C10. Throughout a run of the value encoder the remembered window stays at leading 0 and
  trailing 0. From that window one pass through the loop body never takes the branch 11:
  it writes the bit 0 when the XOR is zero and otherwise the bits 10 and the full 64 bits
  of the XOR, and leaves the window where it was. So the loop ends with the window at
  (0, 0), and the value sub-stream is the first value followed by these codes.
\<close>

theorem xor_window_stays_zero:
  "encode_value_step (w, prev_bits, 0, 0) v
     = (if float_to_bits v XOR prev_bits = 0 then bw_write w 0 1
        else bw_write (bw_write w 2 2) (float_to_bits v XOR prev_bits) 64,
        float_to_bits v, 0, 0) \<and>
   snd (snd (encode_values_loop (w, prev_bits, 0, 0) vs)) = (0, 0) \<and>
   (reachable w \<longrightarrow>
      bw_bits (fst (encode_values_loop (w, prev_bits, 0, 0) vs))
        = bw_bits w @ xor_codes prev_bits vs) \<and>
   bw_bits (val_writer (encode_values vs)) = val_code vs"
  using encode_values_loop_bits [of w prev_bits vs] encode_values_bits [of vs]
  by (simp add: encode_value_step_zero_window encode_values_loop_window reachable_inv)

theorem xor_window_stays_zero_witness:
  "reachable BitWriter_new \<and>
   bw_bits (fst (encode_values_loop (BitWriter_new, 5, 0, 0) [5, 6]))
     = bw_bits BitWriter_new @ xor_codes 5 [5, 6]"
  using xor_window_stays_zero [of BitWriter_new 5 5 "[5, 6]"] reach_new by blast

lemma xor_codes_replicate: "xor_codes v (replicate n v) = replicate n False"
  by (induction n) (simp_all add: xor_code_def)

lemma reader_of_writer:
  assumes "bw_inv w"
  shows "r_ok (BitReader_new (bw_to_bytes w) (bw_total_bits w))"
    and "r_rest (BitReader_new (bw_to_bytes w) (bw_total_bits w)) = bw_bits w"
proof -
  have l: "length (bw_bits w) = bw_total_bits w" by (rule length_bw_bits [OF assms])
  have b: "bytes_bits (bw_to_bytes w) = bw_bits w @ replicate (nat ((8 - w_bits w) mod 8)) False"
    by (rule bw_to_bytes_bits [OF assms])
  have "8 * length (bw_to_bytes w) = length (bytes_bits (bw_to_bytes w))" by simp
  also have "\<dots> \<ge> bw_total_bits w" unfolding b using l by simp
  finally show "r_ok (BitReader_new (bw_to_bytes w) (bw_total_bits w))"
    by (simp add: r_ok_def BitReader_new_def)
  show "r_rest (BitReader_new (bw_to_bytes w) (bw_total_bits w)) = bw_bits w"
    using l by (simp add: r_rest_def r_bits_def BitReader_new_def b)
qed

text \<open>
  C6. For a sample sequence in which all values are equal, the value sub-stream is the 64
  bits of the first value followed by exactly one 0 bit for each further sample, and
  \<^verbatim>\<open>decode_values\<close>, reading that sub-stream, returns the same 64-bit patterns.
\<close>

theorem identical_values_single_zero_bit:
  "bw_bits (val_writer (encode_values (v # replicate n v))) = word_bits 64 v @ replicate n False \<and>
   (Suc n < 2 ^ 32 \<longrightarrow>
      decode_values
        (BitReader_new (bw_to_bytes (val_writer (encode_values (v # replicate n v))))
           (bw_total_bits (val_writer (encode_values (v # replicate n v)))))
        (of_nat (Suc n))
      = Inr (v # replicate n v))"
proof -
  let ?vs = "v # replicate n v"
  let ?w = "val_writer (encode_values ?vs)"
  have bits: "bw_bits ?w = val_code ?vs" and inv: "bw_inv ?w"
    using encode_values_bits [of ?vs] by simp_all
  have code: "val_code ?vs = word_bits 64 v @ replicate n False"
    by (simp add: val_code_def xor_codes_replicate)
  have "decode_values (BitReader_new (bw_to_bytes ?w) (bw_total_bits ?w)) (of_nat (length ?vs))
          = Inr ?vs" if "Suc n < 2 ^ 32"
    using that reader_of_writer [OF inv] bits
    by (intro decode_values_code [where rest = "[]"]) simp_all
  then show ?thesis by (simp add: bits code)
qed

theorem identical_values_single_zero_bit_witness:
  "Suc 2 < 2 ^ 32 \<and>
   decode_values
     (BitReader_new (bw_to_bytes (val_writer (encode_values (7 # replicate 2 7))))
        (bw_total_bits (val_writer (encode_values (7 # replicate 2 7)))))
     (of_nat (Suc 2))
   = Inr (7 # replicate 2 7)"
proof -
  have h: "Suc 2 < (2 :: nat) ^ 32" by simp
  from identical_values_single_zero_bit [of 7 2] h show ?thesis by blast
qed

section \<open>Header bytes the decoder does not use\<close>

lemma length_patch_bytes:
  "lo + length c \<le> length buf \<Longrightarrow> length (patch_bytes lo c buf) = length buf"
  by (simp add: patch_bytes_def)

lemma bytes_bits_take: "bytes_bits (take n bs) = take (8 * n) (bytes_bits bs)"
proof (induction bs arbitrary: n)
  case Nil
  then show ?case by simp
next
  case (Cons b bs)
  then show ?case by (cases n) (simp_all add: bytes_bits_Cons)
qed

lemma bytes_bits_drop: "bytes_bits (drop n bs) = drop (8 * n) (bytes_bits bs)"
proof (induction bs arbitrary: n)
  case Nil
  then show ?case by simp
next
  case (Cons b bs)
  then show ?case by (cases n) (simp_all add: bytes_bits_Cons)
qed

lemma header_field_patch:
  assumes "lo + length c \<le> length buf" "k + n \<le> 8 * lo \<or> 8 * (lo + length c) \<le> k"
  shows "header_field (patch_bytes lo c buf) k n = header_field buf k n"
proof -
  let ?A = "bytes_bits (take lo buf)"
  let ?D = "bytes_bits (drop (lo + length c) buf)"
  let ?Y = "bytes_bits (take (length c) (drop lo buf))"
  have split: "buf = take lo buf @ take (length c) (drop lo buf) @ drop (lo + length c) buf"
    by (metis append_take_drop_id drop_drop add.commute)
  have b: "bytes_bits buf = ?A @ ?Y @ ?D"
    by (subst split) (simp only: bytes_bits_append)
  have p: "bytes_bits (patch_bytes lo c buf) = ?A @ bytes_bits c @ ?D"
    by (simp add: patch_bytes_def)
  have la: "length ?A = 8 * lo" using assms(1) by simp
  have ly: "length ?Y = 8 * length c" using assms(1) by simp
  have "take n (drop k (?A @ bytes_bits c @ ?D)) = take n (drop k (?A @ ?Y @ ?D))"
    using assms(2) la ly by auto
  then show ?thesis by (simp only: header_field_def b p)
qed

lemma drop_patch_bytes:
  "lo + length c \<le> length buf \<Longrightarrow> lo + length c \<le> m \<Longrightarrow>
   drop m (patch_bytes lo c buf) = drop m buf"
  by (simp add: patch_bytes_def)

lemma decode_ignores_patch:
  assumes "24 \<le> lo" "lo + length c \<le> 48" "lo + length c \<le> length buf"
  shows "nif_gorilla_decode env (patch_bytes lo c buf) = nif_gorilla_decode env buf"
proof (cases "length buf < 80")
  case True
  have "buf \<noteq> []" "patch_bytes lo c buf \<noteq> []"
    using assms length_patch_bytes [OF assms(3)] by auto
  then show ?thesis
    using True length_patch_bytes [OF assms(3)] by (simp add: nif_gorilla_decode_def)
next
  case False
  let ?p = "patch_bytes lo c buf"
  have l: "length ?p = length buf" by (rule length_patch_bytes [OF assms(3)])
  have f: "header_field ?p k n = header_field buf k n" if "k + n \<le> 192 \<or> 384 \<le> k" for k n
    using that assms by (intro header_field_patch) auto
  have d: "drop m ?p = drop m buf" if "80 \<le> m" for m
    using that assms by (intro drop_patch_bytes) auto
  have hs: "unat (header_field buf 80 16) = 80 \<or> unat (header_field buf 80 16) = 84"
    if "\<not> (header_field buf 80 16 \<noteq> 80 \<and> header_field buf 80 16 \<noteq> 84)"
    using that by auto
  show ?thesis
    using False l hs
    by (auto simp: decode_header_closed decode_header_spec_def Let_def f d)
qed

section \<open>Header validation\<close>

lemma past_header_simps [simp]:
  "past_header (Inr x)"
  "past_header (Inl ReadPastEnd)"
  "past_header (Inl OutOfBounds)"
  "past_header (Inl UndefinedShift)"
  "past_header (Inl PackedTooSmall)"
  by (simp_all add: past_header_def header_error_def)

lemma past_header_bind:
  "past_header m \<Longrightarrow> (\<And>x. past_header (f x)) \<Longrightarrow> past_header (bindE m f)"
  by (cases m) (simp_all add: past_header_def)

lemma past_br_read_bit: "past_header (br_read_bit r)"
  by (simp add: br_read_bit_def Let_def)

lemma past_br_read_loop: "past_header (br_read_loop n acc r)"
  by (induction n arbitrary: acc r)
     (auto intro!: past_header_bind past_br_read_bit)

lemma past_br_read: "past_header (br_read r n)"
  by (simp add: br_read_def past_br_read_loop)

lemma past_br_read_signed: "past_header (br_read_signed r n)"
  unfolding br_read_signed_def
  by (auto intro!: past_header_bind past_br_read)

lemma past_decode_first_delta: "past_header (decode_first_delta r)"
  unfolding decode_first_delta_def
  by (auto intro!: past_header_bind past_br_read_bit past_br_read_signed)

lemma past_decode_timestamps_loop: "past_header (decode_timestamps_loop n r pd acc)"
  by (induction n arbitrary: r pd acc)
     (auto intro!: past_header_bind past_decode_first_delta
        simp: decode_delta_of_delta_eq Let_def)

lemma past_decode_timestamps: "past_header (decode_timestamps r c)"
  unfolding decode_timestamps_def
  by (auto intro!: past_header_bind past_br_read past_decode_first_delta
        past_decode_timestamps_loop simp: Let_def)

lemma past_decode_value_step: "past_header (decode_value_step st)"
  unfolding decode_value_step_def
  by (cases st) (auto intro!: past_header_bind past_br_read_bit past_br_read simp: Let_def)

lemma past_decode_values_loop: "past_header (decode_values_loop n st acc)"
  by (induction n arbitrary: st acc)
     (auto intro!: past_header_bind past_decode_value_step)

lemma past_decode_values: "past_header (decode_values r c)"
  unfolding decode_values_def
  by (auto intro!: past_header_bind past_br_read past_decode_values_loop)

lemma past_skip_bits: "past_header (skip_bits n r)"
  by (induction n arbitrary: r) (auto intro!: past_header_bind past_br_read_bit)

lemma past_decode_payload: "past_header (decode_payload env pd ps c fl sc)"
  unfolding decode_payload_def Let_def
  by (auto intro!: past_header_bind past_br_read past_br_read_signed past_skip_bits
        past_decode_timestamps past_decode_values)

lemma version_one [simp]: "(ucast GORILLA_VERSION :: u64) = 1"
  by (simp add: GORILLA_VERSION_def)

section \<open>The checksum field and the header size\<close>

lemma vm_preprocess_cases:
  obtains flags scale vals where
    "vm_preprocess env vm ic sn vs = (flags, scale, vals)"
  by (cases "vm_preprocess env vm ic sn vs") auto

lemma encode_header_fields:
  assumes "data \<noteq> []"
  shows "(if opts_vm opts \<or> opts_counter opts then 84 else 80)
           \<le> length (nif_gorilla_encode env data opts)"
    and "header_field (nif_gorilla_encode env data opts) 80 16
           = (if opts_vm opts \<or> opts_counter opts then 84 else 80)"
    and "header_field (nif_gorilla_encode env data opts) 192 32
           = ucast (crc32 (drop (if opts_vm opts \<or> opts_counter opts then 84 else 80)
                             (nif_gorilla_encode env data opts)))"
proof -
  let ?E = "nif_gorilla_encode env data opts"
  let ?hs = "if opts_vm opts \<or> opts_counter opts then 84 else 80 :: nat"
  obtain flags scale vals where
    pp: "vm_preprocess env (opts_vm opts) (opts_counter opts) (opts_scale_n opts) (map snd data)
           = (flags, scale, vals)"
    by (rule vm_preprocess_cases)
  from encode_layout [OF assms(1) pp] obtain hdr packed k fd tb vb tot ratio where
    enc: "?E = hdr @ packed"
    and hb: "bytes_bits hdr
       = outer_header_bits (of_nat (length data)) (of_nat (length packed)) (crc32 packed)
           (first_timestamp (encode_timestamps (map fst data))) fd
           (first_value (encode_values vals)) tb vb tot ratio (clock env) flags scale
           (opts_vm opts \<or> opts_counter opts)"
    by metis
  have lh: "length hdr = ?hs"
    using arg_cong [OF hb, of length] by (simp split: if_splits)
  show "?hs \<le> length ?E" by (simp add: enc lh)
  show "header_field ?E 80 16 = (if opts_vm opts \<or> opts_counter opts then 84 else 80)"
    by (simp add: header_field_def enc hb lh outer_header_bits_def bl_word_word_bits
        take_bit16_ucast)
  show "header_field ?E 192 32 = ucast (crc32 (drop ?hs ?E))"
    by (simp add: header_field_def enc hb lh outer_header_bits_def bl_word_word_bits
        take_bit32_ucast)
qed

text \<open>
  C3. A stored checksum that disagrees with the payload does not make decoding fail.
  Bytes 24 to 27 of an encoded buffer hold the CRC-32 of the payload; with any four bytes
  in their place the decoder returns what it returns for the buffer itself, and for a
  list of fewer than \<open>2^26\<close> samples that is a sample list, not an error.
\<close>

theorem checksum_is_advisory:
  assumes "data \<noteq> []" "length c = 4"
  shows "header_field (nif_gorilla_encode env data opts) 192 32
           = ucast (crc32 (drop (if opts_vm opts \<or> opts_counter opts then 84 else 80)
                             (nif_gorilla_encode env data opts))) \<and>
         nif_gorilla_decode env (patch_bytes 24 c (nif_gorilla_encode env data opts))
           = nif_gorilla_decode env (nif_gorilla_encode env data opts) \<and>
         (length data < 2 ^ 26 \<longrightarrow>
            (\<exists>r. nif_gorilla_decode env (nif_gorilla_encode env data opts) = Inr r))"
proof -
  let ?E = "nif_gorilla_encode env data opts"
  obtain flags scale vals where
    pp: "vm_preprocess env (opts_vm opts) (opts_counter opts) (opts_scale_n opts) (map snd data)
           = (flags, scale, vals)"
    by (rule vm_preprocess_cases)
  have "28 \<le> length ?E"
    using encode_header_fields(1) [where env = env and opts = opts, OF assms(1)]
    by (simp split: if_splits)
  then have "nif_gorilla_decode env (patch_bytes 24 c ?E) = nif_gorilla_decode env ?E"
    using assms(2) by (intro decode_ignores_patch) simp_all
  moreover have "\<exists>r. nif_gorilla_decode env ?E = Inr r" if "length data < 2 ^ 26"
    using encode_decode_small [OF assms(1) that pp] by simp
  ultimately show ?thesis
    using encode_header_fields(3) [where env = env and opts = opts, OF assms(1)] by simp
qed

theorem checksum_is_advisory_witness:
  "example_samples \<noteq> [] \<and> length [0, 0, 0, 0 :: byte] = 4 \<and> length example_samples < 2 ^ 26 \<and>
   nif_gorilla_decode example_env
     (patch_bytes 24 [0, 0, 0, 0] (nif_gorilla_encode example_env example_samples default_opts))
     = nif_gorilla_decode example_env
         (nif_gorilla_encode example_env example_samples default_opts) \<and>
   (\<exists>r. nif_gorilla_decode example_env
          (nif_gorilla_encode example_env example_samples default_opts) = Inr r)"
proof -
  have h1: "example_samples \<noteq> []" by (simp add: example_samples_def)
  have h2: "length [0, 0, 0, 0 :: byte] = 4" by simp
  have h3: "length example_samples < 2 ^ 26" by (simp add: example_samples_def)
  from checksum_is_advisory [OF h1 h2, of example_env default_opts] h1 h2 h3
  show ?thesis by blast
qed

text \<open>
  C7 does not hold of the code. With \<^verbatim>\<open>is_counter\<close> true, \<^verbatim>\<open>victoria_metrics\<close> absent
  or false and \<^verbatim>\<open>scale_decimals\<close> absent or \<^verbatim>\<open>:auto\<close>, the claim expects the 80-byte
  header; the encoder writes the header size 84 and a header of 84 bytes. The test
  \<^verbatim>\<open>scale_decimals >= 0\<close> is made on an unsigned number and always holds, so
  \<^verbatim>\<open>is_counter\<close> alone selects the long header.
\<close>

theorem counter_without_scale_gets_84_byte_header:
  "header_field (nif_gorilla_encode env [(t, v)] counter_only_opts) 80 16 = 84 \<and>
   header_field (nif_gorilla_encode env [(t, v)] counter_auto_opts) 80 16 = 84 \<and>
   84 \<le> length (nif_gorilla_encode env [(t, v)] counter_only_opts)"
  using encode_header_fields(1,2) [where data = "[(t, v)]" and env = env and opts = counter_only_opts]
    encode_header_fields(2) [where data = "[(t, v)]" and env = env and opts = counter_auto_opts]
  by (simp add: opts_vm_def opts_counter_def counter_only_opts_def counter_auto_opts_def)

theorem counter_without_scale_gets_84_byte_header_witness:
  "header_field (nif_gorilla_encode example_env [(0, 0)] counter_only_opts) 80 16 = 84"
  using counter_without_scale_gets_84_byte_header [of example_env 0 0] by blast

section \<open>The duplicated fields\<close>

text \<open>
  C4, for buffers that are not empty. Decoding a non-empty buffer fails with an error of
  the outer-header validation in exactly these cases: the buffer is shorter than 80
  bytes; the 64-bit magic constant does not match; the version field exceeds 1; the
  header-size field is neither 80 nor 84; the buffer is shorter than the declared header
  size; the declared compressed size reaches behind the end of the buffer. In every other
  case decoding goes on to the payload, where it can fail only with the errors of the
  payload: an inner header that does not fit, or a read past the end of a stream.
\<close>

theorem header_validation_cases:
  assumes "data \<noteq> []"
  shows "(\<exists>e. nif_gorilla_decode env data = Inl e \<and> header_error e) = header_violation data"
proof (cases "length data < 80")
  case True
  then show ?thesis
    using assms by (simp add: nif_gorilla_decode_def header_violation_def header_error_def)
next
  case False
  then have l: "80 \<le> length data" by simp
  have p: "\<not> (\<exists>e. decode_payload env pd ps c fl sc = Inl e \<and> header_error e)" for pd ps c fl sc
    using past_decode_payload [of env pd ps c fl sc] by (auto simp: past_header_def)
  show ?thesis
    unfolding decode_header_closed [OF l] decode_header_spec_def Let_def header_violation_def
    using False p by (auto simp: header_error_def)
qed

theorem header_validation_cases_witness:
  "[1 :: byte] \<noteq> [] \<and> header_violation [1] \<and>
   (\<exists>e. nif_gorilla_decode example_env [1] = Inl e \<and> header_error e)"
proof -
  have h: "[1 :: byte] \<noteq> []" by simp
  have v: "header_violation [1]" by (simp add: header_violation_def)
  from header_validation_cases [OF h, of example_env] h v show ?thesis by blast
qed

text \<open>
  C4 as stated fails for the zero-length buffer: it is shorter than 80 bytes, and decoding
  it returns the empty sample list.
\<close>

theorem header_validation_counterexample:
  "length ([] :: byte list) < 80 \<and> nif_gorilla_decode example_env [] = Inr []"
  by (simp add: decode_Nil)

text \<open>
  C9, as the code has it. The decoder does not compare the outer header's copies of the
  first timestamp, the first delta and the first value bits with the inner header:
  whatever 20 bytes stand at offsets 28 to 47 of a buffer, decoding returns the same
  result.
\<close>

theorem duplicated_fields_not_compared:
  "48 \<le> length buf \<Longrightarrow> length c = 20 \<Longrightarrow>
   nif_gorilla_decode env (patch_bytes 28 c buf) = nif_gorilla_decode env buf"
  by (rule decode_ignores_patch) simp_all

lemma bytes_bits_zeros: "bytes_bits (replicate n 0) = replicate (8 * n) False"
proof (induction n)
  case 0
  then show ?case by simp
next
  case (Suc n)
  have "word_bits 8 (0 :: byte) = replicate 8 False" by (rule word_bits_zero) simp
  with Suc show ?case by (simp add: bytes_bits_Cons replicate_add [symmetric])
qed

lemma bl_word_zeros: "bl_word (replicate n False) = 0"
proof -
  have "foldl (\<lambda>acc b. push_bit 1 acc OR of_bool b) (0 :: u64) (replicate n False) = 0"
    by (induction n) simp_all
  then show ?thesis by (simp add: bl_word_def)
qed

lemma single_sample_facts:
  "single_sample \<noteq> []" "length single_sample < 2 ^ 26" "\<not> opts_vm default_opts"
  "\<not> opts_counter default_opts" "timestamps_fit (map fst single_sample)"
  by (simp_all add: single_sample_def opts_vm_def opts_counter_def default_opts_def
      timestamps_fit_def)

lemma single_sample_length:
  "80 \<le> length (nif_gorilla_encode example_env single_sample default_opts)"
  using encode_header_fields(1)
          [where data = single_sample and env = example_env and opts = default_opts]
  by (simp add: single_sample_facts)

theorem duplicated_fields_not_compared_witness:
  "48 \<le> length (nif_gorilla_encode example_env single_sample default_opts) \<and>
   length (replicate 20 (0 :: byte)) = 20 \<and>
   nif_gorilla_decode example_env
     (patch_bytes 28 (replicate 20 0) (nif_gorilla_encode example_env single_sample default_opts))
     = nif_gorilla_decode example_env (nif_gorilla_encode example_env single_sample default_opts)"
proof -
  have h1: "48 \<le> length (nif_gorilla_encode example_env single_sample default_opts)"
    using single_sample_length by simp
  have h2: "length (replicate 20 (0 :: byte)) = 20" by simp
  from duplicated_fields_not_compared [OF h1 h2, of example_env] h1 h2 show ?thesis by blast
qed

text \<open>
  C9 as stated fails: in the encoding of one sample with timestamp 1000, with the bytes 28
  to 47 set to zero, the outer header's first timestamp is 0 and the inner header's is
  1000, and decoding succeeds and returns the sample.
\<close>

theorem duplicated_fields_counterexample:
  "nif_gorilla_decode example_env
     (patch_bytes 28 (replicate 20 0) (nif_gorilla_encode example_env single_sample default_opts))
     = Inr single_sample \<and>
   header_field
     (patch_bytes 28 (replicate 20 0) (nif_gorilla_encode example_env single_sample default_opts))
     224 64 = 0 \<and>
   header_field
     (drop 80 (patch_bytes 28 (replicate 20 0)
                 (nif_gorilla_encode example_env single_sample default_opts)))
     32 64 = 1000"
proof -
  let ?E = "nif_gorilla_encode example_env single_sample default_opts"
  let ?P = "patch_bytes 28 (replicate 20 0) ?E"
  have l: "80 \<le> length ?E" by (rule single_sample_length)
  have "nif_gorilla_decode example_env ?P = nif_gorilla_decode example_env ?E"
    using l by (intro decode_ignores_patch) simp_all
  also have "\<dots> = Inr single_sample"
    using encode_decode_plain
            [OF small_samples_fit [OF single_sample_facts(2)] single_sample_facts(3),
             of example_env]
      replay_timestamps_id [OF single_sample_facts(5)]
    by (simp add: zip_map_fst_snd)
  finally have dec: "nif_gorilla_decode example_env ?P = Inr single_sample" .
  have "bytes_bits ?P
          = bytes_bits (take 28 ?E) @ replicate 160 False @ bytes_bits (drop 48 ?E)"
    by (simp add: patch_bytes_def bytes_bits_zeros)
  moreover have "length (bytes_bits (take 28 ?E)) = 224" using l by simp
  ultimately have outer: "header_field ?P 224 64 = 0"
    by (simp add: header_field_def bl_word_zeros)
  have pp: "vm_preprocess example_env (opts_vm default_opts) (opts_counter default_opts)
              (opts_scale_n default_opts) (map snd single_sample) = (0, 0, map snd single_sample)"
    by (simp add: single_sample_facts vm_preprocess_off)
  from encode_layout [OF single_sample_facts(1) pp] obtain hdr packed k fd tb vb tot ratio where
    enc: "?E = hdr @ packed"
    and hb: "bytes_bits hdr
       = outer_header_bits (of_nat (length single_sample)) (of_nat (length packed)) (crc32 packed)
           (first_timestamp (encode_timestamps (map fst single_sample))) fd
           (first_value (encode_values (map snd single_sample))) tb vb tot ratio
           (clock example_env) 0 0 (opts_vm default_opts \<or> opts_counter default_opts)"
    and pb: "bytes_bits packed
       = inner_header_bits (of_nat (length single_sample))
           (first_timestamp (encode_timestamps (map fst single_sample)))
           (first_value (encode_values (map snd single_sample))) fd
           (of_nat (length (ts_code (map fst single_sample)))) vb
         @ ts_code (map fst single_sample) @ val_code (map snd single_sample)
         @ replicate k False"
    by metis
  have lh: "length hdr = 80"
    using arg_cong [OF hb, of length] by (simp add: single_sample_facts)
  have "drop 80 ?P = drop 80 ?E" using l by (intro drop_patch_bytes) simp_all
  then have dp: "drop 80 ?P = packed" by (simp add: enc lh)
  have ft: "first_timestamp (encode_timestamps (map fst single_sample)) = 1000"
    by (simp add: single_sample_def encode_timestamps_def)
  have inner: "header_field (drop 80 ?P) 32 64 = 1000"
    unfolding dp
    by (simp add: header_field_def pb inner_header_bits_def bl_word_word_bits ft)
  from dec outer inner show ?thesis by blast
qed

end
